theory Spec2Isabelle
  imports Main "HOL-Library.Signed_Division"
begin

section \<open>Nodes of the 2-3-4 tree\<close>

text \<open>
  The debug operations of \<^verbatim>\<open>debug_operations.ipp\<close> read the node graph of a
  \<^verbatim>\<open>TwoFourTree<K,C,A>\<close>. A node owns its children through owning pointers, so the
  nodes below a node form a finite tree; the parent back-reference is a raw pointer and is
  kept as an address. Every node carries its own address \<open>addr\<close>, which is what the code
  compares when it compares two \<^verbatim>\<open>const Node*\<close>. The arrays \<^verbatim>\<open>keys_\<close> and
  \<^verbatim>\<open>children_\<close> are lists whose length is the capacity of the array; \<^verbatim>\<open>num_keys_\<close>
  is the \<^verbatim>\<open>int\<close> counter of the keys in use; an empty child slot is \<open>None\<close>.
\<close>

type_synonym addr = nat

datatype 'k node =
  Node (addr: addr) (parent: "addr option") (keys: "'k list") (num_keys: int)
       (children: "'k node option list")

text \<open>
  What is undefined behaviour in C++ is an error value of the model: an array subscript
  outside the array, the dereference of an empty child pointer or of a pointer to no node,
  and a failed \<^verbatim>\<open>assert\<close>.
\<close>

datatype error =
    KeyIndexOutOfBounds addr int
  | ChildIndexOutOfBounds addr int
  | NullDereference
  | InvalidPointer addr
  | NotAChild addr
  | AssertionFailure addr

definition key_at :: "'k node \<Rightarrow> int \<Rightarrow> error + 'k" where
  "key_at n i =
     (if 0 \<le> i \<and> nat i < length (keys n) then Inr (keys n ! nat i)
      else Inl (KeyIndexOutOfBounds (addr n) i))"

definition child_at :: "'k node \<Rightarrow> int \<Rightarrow> error + 'k node option" where
  "child_at n i =
     (if 0 \<le> i \<and> nat i < length (children n) then Inr (children n ! nat i)
      else Inl (ChildIndexOutOfBounds (addr n) i))"

text \<open>
  Modelled from the spec: \<^verbatim>\<open>Node::isLeaf\<close> is declared outside the source file. The
  spec's data model says that a leaf owns zero children.
\<close>

definition isLeaf :: "'k node \<Rightarrow> bool" where
  "isLeaf n = (\<forall>c \<in> set (children n). c = None)"

text \<open>
  The code dereferences \<^verbatim>\<open>parent_\<close>: the validator to print a wrong parent, the
  layout to climb from a node to its parent. An operation is called on a node of a tree
  \<open>T\<close>; a pointer to a node of \<open>T\<close> is dereferenced by looking its address up among
  the nodes of \<open>T\<close>. The validator prints whatever node the pointer refers to: the
  nodes that are alive outside of \<open>T\<close> are a store \<open>H\<close> from addresses to nodes, and
  a pointer to no live node cannot be dereferenced. The layout asks the parent for the slot
  that holds the node it came from; no node outside of \<open>T\<close> holds a node of \<open>T\<close>, so
  the layout looks the pointer up in \<open>T\<close> only and stops at any other pointer.
\<close>

fun nodes_of :: "'k node \<Rightarrow> 'k node list" where
  "nodes_of (Node a p ks k cs) =
     Node a p ks k cs # concat (map (\<lambda>c. case c of None \<Rightarrow> [] | Some m \<Rightarrow> nodes_of m) cs)"

definition deref :: "'k node \<Rightarrow> addr \<Rightarrow> 'k node option" where
  "deref T a = find (\<lambda>n. addr n = a) (nodes_of T)"

type_synonym 'k store = "addr \<Rightarrow> 'k node option"

definition deref_live :: "'k store \<Rightarrow> 'k node \<Rightarrow> addr \<Rightarrow> 'k node option" where
  "deref_live H T a = (case deref T a of Some n \<Rightarrow> Some n | None \<Rightarrow> H a)"

section \<open>The label of a node\<close>

text \<open>
  \<^verbatim>\<open>Node::getString\<close>. The parameter \<open>shw\<close> is \<^verbatim>\<open>operator<<\<close> of the key type
  \<^verbatim>\<open>K\<close>. The loop \<^verbatim>\<open>for (int i=1; i < num_keys_-1; i++)\<close> writes the keys between
  the first and the last one.
\<close>

fun keys_string :: "('k \<Rightarrow> string) \<Rightarrow> 'k node \<Rightarrow> nat list \<Rightarrow> string \<Rightarrow> error + string" where
  "keys_string shw node [] ss = Inr ss"
| "keys_string shw node (i # is) ss =
     (case key_at node (int i) of
        Inl e \<Rightarrow> Inl e
      | Inr k \<Rightarrow> keys_string shw node is (ss @ '', '' @ shw k))"

definition getString :: "('k \<Rightarrow> string) \<Rightarrow> 'k node \<Rightarrow> error + string" where
  "getString shw node =
     (if num_keys node = 0 then Inr ''[]''
      else case key_at node 0 of
             Inl e \<Rightarrow> Inl e
           | Inr k0 \<Rightarrow>
              (case keys_string shw node [1 ..< nat (num_keys node - 1)] (''['' @ shw k0) of
                 Inl e \<Rightarrow> Inl e
               | Inr ss \<Rightarrow>
                  if num_keys node > 1
                  then (case key_at node (num_keys node - 1) of
                          Inl e \<Rightarrow> Inl e
                        | Inr kl \<Rightarrow> Inr (ss @ '', '' @ shw kl @ '']''))
                  else Inr (ss @ '']'')))"

section \<open>The validator\<close>

text \<open>
  Each block of \<^verbatim>\<open>validateRelationships\<close> that sets \<^verbatim>\<open>rc = false\<close> also writes a
  report to \<^verbatim>\<open>std::cout\<close>. The text of a report is kept as one value that names the
  invariant and holds what the report prints of the nodes: for a wrong parent the labels of
  the node, of the expected parent and of the recorded parent (\<^verbatim>\<open>nullptr\<close> for a null
  pointer); for a wrong number of children the label of the node, \<^verbatim>\<open>num_keys_\<close>, the
  number of children and the labels of the children; for the three checks of the keys the
  address of the node and the index. Writing a report reads the nodes it prints: every
  label is a call of \<^verbatim>\<open>getString\<close>, the recorded parent is reached through the pointer
  \<^verbatim>\<open>parent_\<close>, the children through their slots.
\<close>

text \<open>
  Modelled from the spec: the report of two keys out of order also writes \<^verbatim>\<open>*this\<close> with
  \<^verbatim>\<open>operator<<\<close> of \<^verbatim>\<open>Node\<close>, which is declared outside the source file. The spec says
  that the validator reports a violation and goes on, and the model takes this write to
  succeed.
\<close>

datatype report =
    WrongParent string string string
  | KeysOutOfOrder addr int
  | LeftChildTooBig addr int
  | RightChildTooSmall addr
  | ChildCountMismatch string int int "string list"

text \<open>
  The variables of the loop. The queue \<^verbatim>\<open>allNodes\<close> holds pairs of pointers to nodes
  of the tree, parent and child; the parent is \<open>None\<close> for \<^verbatim>\<open>nullptr\<close>.
\<close>

record 'k vstate =
  rc :: bool
  cout :: "report list"
  allNodes :: "('k node option \<times> 'k node) list"
  num_children :: int

text \<open>
  The loop \<^verbatim>\<open>for (int i=1; i < node->num_keys_; i++)\<close> over the keys of a node. The
  loops of the validator count an \<^verbatim>\<open>int\<close> upwards to a bound that the body does not
  change, so each is a recursion over the list of the indices it takes, which are never
  negative.
\<close>

fun keys_loop :: "('k::linorder) node \<Rightarrow> nat list \<Rightarrow> 'k vstate \<Rightarrow> error + 'k vstate" where
  "keys_loop node [] st = Inr st"
| "keys_loop node (i # is) st =
     (case key_at node (int i - 1) of
        Inl e \<Rightarrow> Inl e
      | Inr a \<Rightarrow>
         (case key_at node (int i) of
            Inl e \<Rightarrow> Inl e
          | Inr b \<Rightarrow>
             keys_loop node is
               (if a > b
                then st\<lparr>rc := False, cout := cout st @ [KeysOutOfOrder (addr node) (int i)]\<rparr>
                else st)))"

text \<open>The loop over the first \<^verbatim>\<open>num_keys_\<close> child slots.\<close>

fun children_loop :: "('k::linorder) node \<Rightarrow> nat list \<Rightarrow> 'k vstate \<Rightarrow> error + 'k vstate" where
  "children_loop node [] st = Inr st"
| "children_loop node (i # is) st =
     (case child_at node (int i) of
        Inl e \<Rightarrow> Inl e
      | Inr None \<Rightarrow> children_loop node is st
      | Inr (Some child) \<Rightarrow>
         (case key_at child (num_keys child - 1) of
            Inl e \<Rightarrow> Inl e
          | Inr a \<Rightarrow>
             (case key_at node (int i) of
                Inl e \<Rightarrow> Inl e
              | Inr b \<Rightarrow>
                 children_loop node is
                   ((if a > b
                     then st\<lparr>rc := False, cout := cout st @ [LeftChildTooBig (addr node) (int i)]\<rparr>
                     else st)
                    \<lparr>allNodes := allNodes st @ [(Some node, child)],
                     num_children := num_children st + 1\<rparr>))))"

text \<open>The check of the child in slot \<^verbatim>\<open>num_keys_\<close>.\<close>

definition last_child :: "('k::linorder) node \<Rightarrow> 'k vstate \<Rightarrow> error + 'k vstate" where
  "last_child node st =
     (case child_at node (num_keys node) of
        Inl e \<Rightarrow> Inl e
      | Inr None \<Rightarrow> Inr st
      | Inr (Some child) \<Rightarrow>
         (case key_at child 0 of
            Inl e \<Rightarrow> Inl e
          | Inr a \<Rightarrow>
             (case key_at node (num_keys node - 1) of
                Inl e \<Rightarrow> Inl e
              | Inr b \<Rightarrow>
                 Inr ((if a < b
                       then st\<lparr>rc := False, cout := cout st @ [RightChildTooSmall (addr node)]\<rparr>
                       else st)
                      \<lparr>allNodes := allNodes st @ [(Some node, child)],
                       num_children := num_children st + 1\<rparr>))))"

text \<open>
  The report of a wrong number of children prints \<^verbatim>\<open>children_[i]->getString()\<close> for
  every \<^verbatim>\<open>i < num_children\<close>: it dereferences these slots without a test.
\<close>

fun print_children :: "('k \<Rightarrow> string) \<Rightarrow> 'k node \<Rightarrow> nat list \<Rightarrow> error + string list" where
  "print_children shw node [] = Inr []"
| "print_children shw node (i # is) =
     (case child_at node (int i) of
        Inl e \<Rightarrow> Inl e
      | Inr None \<Rightarrow> Inl NullDereference
      | Inr (Some child) \<Rightarrow>
         (case getString shw child of
            Inl e \<Rightarrow> Inl e
          | Inr s \<Rightarrow>
             (case print_children shw node is of
                Inl e \<Rightarrow> Inl e
              | Inr ss \<Rightarrow> Inr (s # ss))))"

definition count_check :: "('k \<Rightarrow> string) \<Rightarrow> 'k node \<Rightarrow> 'k vstate \<Rightarrow> error + 'k vstate" where
  "count_check shw node st =
     (if \<not> isLeaf node \<and> num_children st \<noteq> num_keys node + 1
      then (case getString shw node of
              Inl e \<Rightarrow> Inl e
            | Inr s \<Rightarrow>
               (case print_children shw node [0 ..< nat (num_children st)] of
                  Inl e \<Rightarrow> Inl e
                | Inr ss \<Rightarrow>
                   Inr (st\<lparr>rc := False,
                           cout := cout st
                             @ [ChildCountMismatch s (num_keys node) (num_children st) ss]\<rparr>)))
      else Inr st)"

text \<open>
  What the report of a wrong parent prints for a pointer: \<^verbatim>\<open>nullptr\<close> for a null pointer,
  the label of the node otherwise.
\<close>

definition label_or_nullptr :: "('k \<Rightarrow> string) \<Rightarrow> 'k node option \<Rightarrow> error + string" where
  "label_or_nullptr shw p = (case p of None \<Rightarrow> Inr ''nullptr'' | Some n \<Rightarrow> getString shw n)"

text \<open>The node that the raw pointer \<^verbatim>\<open>parent_\<close> refers to, \<open>None\<close> for a null pointer.\<close>

definition pointee :: "'k store \<Rightarrow> 'k node \<Rightarrow> addr option \<Rightarrow> error + 'k node option" where
  "pointee H T q =
     (case q of
        None \<Rightarrow> Inr None
      | Some a \<Rightarrow>
         (case deref_live H T a of
            None \<Rightarrow> Inl (InvalidPointer a)
          | Some m \<Rightarrow> Inr (Some m)))"

text \<open>
  The check of the parent back-reference, which compares two pointers. Its report prints
  the node, the parent that the walk came from and the parent that the node records.
\<close>

definition parent_check ::
  "('k \<Rightarrow> string) \<Rightarrow> 'k store \<Rightarrow> 'k node \<Rightarrow> 'k node option \<times> 'k node \<Rightarrow> 'k vstate
     \<Rightarrow> error + 'k vstate" where
  "parent_check shw H T check st =
     (if map_option addr (fst check) \<noteq> parent (snd check)
      then (case getString shw (snd check) of
              Inl e \<Rightarrow> Inl e
            | Inr s \<Rightarrow>
               (case label_or_nullptr shw (fst check) of
                  Inl e \<Rightarrow> Inl e
                | Inr should \<Rightarrow>
                   (case pointee H T (parent (snd check)) of
                      Inl e \<Rightarrow> Inl e
                    | Inr m \<Rightarrow>
                       (case label_or_nullptr shw m of
                          Inl e \<Rightarrow> Inl e
                        | Inr actual \<Rightarrow>
                           Inr (st\<lparr>rc := False,
                                   cout := cout st @ [WrongParent s should actual]\<rparr>)))))
      else Inr st)"

text \<open>One iteration of the \<^verbatim>\<open>while\<close> loop, after the front of the queue is popped.\<close>

definition visit ::
  "('k \<Rightarrow> string) \<Rightarrow> 'k store \<Rightarrow> ('k::linorder) node \<Rightarrow> 'k node option \<times> 'k node \<Rightarrow> 'k vstate
     \<Rightarrow> error + 'k vstate" where
  "visit shw H T check st =
     (let node = snd check
      in case parent_check shw H T check st of
           Inl e \<Rightarrow> Inl e
         | Inr st1 \<Rightarrow>
            (case keys_loop node [1 ..< nat (num_keys node)] st1 of
               Inl e \<Rightarrow> Inl e
             | Inr st2 \<Rightarrow>
                (case children_loop node [0 ..< nat (num_keys node)] (st2\<lparr>num_children := 0\<rparr>) of
                   Inl e \<Rightarrow> Inl e
                 | Inr st3 \<Rightarrow>
                    (case last_child node st3 of
                       Inl e \<Rightarrow> Inl e
                     | Inr st4 \<Rightarrow> count_check shw node st4))))"

text \<open>The non-empty entries of a list of child slots, in slot order.\<close>

fun present :: "'a option list \<Rightarrow> 'a list" where
  "present [] = []"
| "present (None # cs) = present cs"
| "present (Some c # cs) = c # present cs"

text \<open>
  The children that one iteration of the validator's loop appends to its queue: the
  non-empty slots among \<^verbatim>\<open>children_[0 .. num_keys_]\<close>.
\<close>

definition walk_children :: "'k node \<Rightarrow> 'k node list" where
  "walk_children n = present (take (nat (num_keys n + 1)) (children n))"

lemma present_append: "present (xs @ ys) = present xs @ present ys"
  by (induction xs rule: present.induct) auto

lemma keys_loop_allNodes:
  "keys_loop node is st = Inr st' \<Longrightarrow> allNodes st' = allNodes st"
  by (induction "is" arbitrary: st) (auto split: sum.splits if_splits)

text \<open>The node in child slot \<open>i\<close>, as a list of at most one element.\<close>

definition slot :: "'k node \<Rightarrow> nat \<Rightarrow> 'k node list" where
  "slot n i =
     (if i < length (children n)
      then (case children n ! i of None \<Rightarrow> [] | Some c \<Rightarrow> [c])
      else [])"

text \<open>The node in child slot \<^verbatim>\<open>num_keys_\<close>, which the validator checks last.\<close>

definition last_slot :: "'k node \<Rightarrow> 'k node list" where
  "last_slot n = (if 0 \<le> num_keys n then slot n (nat (num_keys n)) else [])"

lemma children_loop_allNodes:
  "children_loop node is st = Inr st' \<Longrightarrow>
     allNodes st' = allNodes st @ map (Pair (Some node)) (concat (map (slot node) is))
     \<and> (\<forall>i \<in> set is. i < length (children node))"
  by (induction "is" arbitrary: st)
     (auto split: sum.splits if_splits option.splits simp: child_at_def slot_def)

lemma last_child_allNodes:
  "last_child node st = Inr st' \<Longrightarrow>
     0 \<le> num_keys node \<and> nat (num_keys node) < length (children node) \<and>
     allNodes st' = allNodes st @ map (Pair (Some node)) (slot node (nat (num_keys node)))"
  by (auto simp: last_child_def child_at_def slot_def split: sum.splits if_splits option.splits)

lemma count_check_allNodes:
  "count_check shw node st = Inr st' \<Longrightarrow> allNodes st' = allNodes st"
  by (auto simp: count_check_def split: sum.splits if_splits)

lemma concat_slot_upt:
  "m \<le> length (children n) \<Longrightarrow>
     concat (map (slot n) [0 ..< m]) = present (take m (children n))"
proof (induction m)
  case 0
  then show ?case by simp
next
  case (Suc m)
  then show ?case
    by (simp add: take_Suc_conv_app_nth present_append slot_def split: option.splits)
qed

lemma parent_check_allNodes:
  "parent_check shw H T check st = Inr st' \<Longrightarrow> allNodes st' = allNodes st"
  by (auto simp: parent_check_def split: if_splits sum.splits)

lemma parent_check_rc:
  "parent_check shw H T (p, n) st = Inr st' \<Longrightarrow>
     rc st' = (rc st \<and> parent n = map_option addr p)
     \<and> (cout st' = [] \<longleftrightarrow> cout st = [] \<and> parent n = map_option addr p)"
  by (auto simp: parent_check_def split: if_splits sum.splits)

lemma walk_children_slots:
  assumes "0 \<le> num_keys n" "nat (num_keys n) < length (children n)"
  shows "concat (map (slot n) [0 ..< nat (num_keys n)]) @ slot n (nat (num_keys n)) = walk_children n"
proof -
  have "concat (map (slot n) [0 ..< nat (num_keys n)]) @ slot n (nat (num_keys n))
        = concat (map (slot n) [0 ..< Suc (nat (num_keys n))])" by simp
  also have "\<dots> = present (take (Suc (nat (num_keys n))) (children n))"
    using assms by (intro concat_slot_upt) simp
  also have "Suc (nat (num_keys n)) = nat (num_keys n + 1)"
    using assms by arith
  finally show ?thesis by (simp only: walk_children_def)
qed

lemma visit_allNodes:
  assumes "visit shw H T check st = Inr st'"
  shows "allNodes st' = allNodes st @ map (Pair (Some (snd check))) (walk_children (snd check))"
proof -
  let ?n = "snd check"
  from assms obtain st1 st2 st3 st4 where
    pc: "parent_check shw H T check st = Inr st1"
    and k: "keys_loop ?n [1 ..< nat (num_keys ?n)] st1 = Inr st2"
    and c: "children_loop ?n [0 ..< nat (num_keys ?n)] (st2\<lparr>num_children := 0\<rparr>) = Inr st3"
    and l: "last_child ?n st3 = Inr st4" and cc: "count_check shw ?n st4 = Inr st'"
    by (auto simp: visit_def Let_def split: sum.splits)
  from keys_loop_allNodes[OF k] parent_check_allNodes[OF pc]
  have a2: "allNodes st2 = allNodes st" by simp
  from children_loop_allNodes[OF c] a2
  have a3: "allNodes st3 = allNodes st @ map (Pair (Some ?n)) (concat (map (slot ?n) [0 ..< nat (num_keys ?n)]))"
    by simp
  from last_child_allNodes[OF l]
  have r: "0 \<le> num_keys ?n" "nat (num_keys ?n) < length (children ?n)"
    and a4: "allNodes st4 = allNodes st3 @ map (Pair (Some ?n)) (slot ?n (nat (num_keys ?n)))"
    by auto
  have "map (Pair (Some ?n)) (concat (map (slot ?n) [0 ..< nat (num_keys ?n)]))
        @ map (Pair (Some ?n)) (slot ?n (nat (num_keys ?n)))
        = map (Pair (Some ?n)) (walk_children ?n)"
    by (simp only: map_append[symmetric] walk_children_slots[OF r])
  then show ?thesis using a3 a4 count_check_allNodes[OF cc] by simp
qed

lemma present_size:
  "sum_list (map size (present cs)) \<le> size_list (size_option size) cs"
  by (induction cs rule: present.induct) auto

lemma walk_children_size: "sum_list (map size (walk_children n)) < size n"
proof (cases n)
  case (Node a p ks k cs)
  have "sum_list (map size (present (take m cs))) \<le> size_list (size_option size) cs" for m
  proof -
    have "sum_list (map size (present (take m cs))) \<le> size_list (size_option size) (take m cs)"
      by (rule present_size)
    also have "\<dots> \<le> size_list (size_option size) (take m cs @ drop m cs)"
      unfolding size_list_append by simp
    finally show ?thesis by simp
  qed
  from this[of "nat (k + 1)"] show ?thesis using Node by (simp add: walk_children_def)
qed

text \<open>
  The loop \<^verbatim>\<open>while (!allNodes.empty())\<close>. It ends because the nodes that an
  iteration appends are children of the node it pops.
\<close>

function validate_loop ::
  "('k \<Rightarrow> string) \<Rightarrow> 'k store \<Rightarrow> ('k::linorder) node \<Rightarrow> 'k vstate \<Rightarrow> error + 'k vstate" where
  "validate_loop shw H T st =
     (case allNodes st of
        [] \<Rightarrow> Inr st
      | check # rest \<Rightarrow>
         (case visit shw H T check (st\<lparr>allNodes := rest\<rparr>) of
            Inl e \<Rightarrow> Inl e
          | Inr st' \<Rightarrow> validate_loop shw H T st'))"
  by pat_completeness auto
termination
proof (relation "measure (\<lambda>(shw, H, T, st). sum_list (map (size \<circ> snd) (allNodes st)))")
  show "wf (measure (\<lambda>(shw, H, T, st). sum_list (map (size \<circ> snd) (allNodes st))))" by simp
next
  fix shw :: "('k::linorder) \<Rightarrow> string" and H :: "'k store" and T :: "'k node"
    and st :: "'k vstate" and check rest st'
  assume a: "allNodes st = check # rest"
    and v: "visit shw H T check (st\<lparr>allNodes := rest\<rparr>) = Inr st'"
  from visit_allNodes[OF v] walk_children_size[of "snd check"] a
  show "((shw, H, T, st'), shw, H, T, st)
          \<in> measure (\<lambda>(shw, H, T, st). sum_list (map (size \<circ> snd) (allNodes st)))"
    by (simp add: comp_def)
qed

text \<open>
  \<^verbatim>\<open>Node::validateRelationships\<close>, called on the node \<open>this\<close> of the tree \<open>T\<close>. It
  returns \<^verbatim>\<open>rc\<close>; what it wrote to \<^verbatim>\<open>std::cout\<close> is returned with it.
\<close>

definition validateRelationships ::
  "('k \<Rightarrow> string) \<Rightarrow> 'k store \<Rightarrow> ('k::linorder) node \<Rightarrow> 'k node
     \<Rightarrow> error + (bool \<times> report list)" where
  "validateRelationships shw H T this =
     (case validate_loop shw H T
             \<lparr>rc = True, cout = [], allNodes = [(None, this)], num_children = 0\<rparr> of
        Inl e \<Rightarrow> Inl e
      | Inr st \<Rightarrow> Inr (rc st, cout st))"

text \<open>\<^verbatim>\<open>TwoFourTree::validate\<close> calls it through the owning pointer \<^verbatim>\<open>root_\<close>.\<close>

definition validate ::
  "('k \<Rightarrow> string) \<Rightarrow> 'k store \<Rightarrow> ('k::linorder) node option \<Rightarrow> error + (bool \<times> report list)" where
  "validate shw H root =
     (case root of None \<Rightarrow> Inl NullDereference | Some r \<Rightarrow> validateRelationships shw H r r)"

lemma walk_children_smaller: "c \<in> set (walk_children n) \<Longrightarrow> size c < size n"
proof -
  assume "c \<in> set (walk_children n)"
  then have "size c \<le> sum_list (map size (walk_children n))"
    by (simp add: member_le_sum_list)
  with walk_children_size[of n] show ?thesis by simp
qed

subsection \<open>The nodes that the validator reaches\<close>

text \<open>
  \<open>walk p n\<close> lists the node \<open>n\<close> and the nodes below it that the loop reaches, each
  with the node that the loop came from (\<open>p\<close> for \<open>n\<close> itself, \<open>None\<close> standing for
  \<^verbatim>\<open>nullptr\<close>): these are the pairs that the queue holds in the course of the loop. The loop
  reaches the children in the slots \<^verbatim>\<open>children_[0 .. num_keys_]\<close> of a reached node, and no
  child in a slot after these.
\<close>

function walk :: "'k node option \<Rightarrow> 'k node \<Rightarrow> ('k node option \<times> 'k node) list" where
  "walk p n = (p, n) # concat (map (walk (Some n)) (walk_children n))"
  by pat_completeness auto
termination
  by (relation "measure (\<lambda>(p, n). size n)") (auto dest: walk_children_smaller)

declare walk.simps [simp del]

text \<open>The conditions under which the checks of one node report a violation.\<close>

definition keys_descend :: "('k::linorder) node \<Rightarrow> bool" where
  "keys_descend n = (\<exists>i \<in> set [1 ..< nat (num_keys n)]. keys n ! (i - 1) > keys n ! i)"

definition left_bad :: "('k::linorder) node \<Rightarrow> bool" where
  "left_bad n = (\<exists>i \<in> set [0 ..< nat (num_keys n)]. \<exists>c \<in> set (slot n i).
                   keys c ! nat (num_keys c - 1) > keys n ! i)"

definition right_bad :: "('k::linorder) node \<Rightarrow> bool" where
  "right_bad n = (\<exists>c \<in> set (last_slot n).
                   keys c ! 0 < keys n ! nat (num_keys n - 1))"

definition count_bad :: "'k node \<Rightarrow> bool" where
  "count_bad n = (\<not> isLeaf n \<and> int (length (walk_children n)) \<noteq> num_keys n + 1)"

definition node_ok :: "('k::linorder) node option \<Rightarrow> 'k node \<Rightarrow> bool" where
  "node_ok p n =
     (parent n = map_option addr p
      \<and> \<not> keys_descend n \<and> \<not> left_bad n \<and> \<not> right_bad n \<and> \<not> count_bad n)"

lemma keys_loop_rc:
  "keys_loop n is st = Inr st' \<Longrightarrow> \<forall>i \<in> set is. 1 \<le> i \<Longrightarrow>
     rc st' = (rc st \<and> \<not> (\<exists>i \<in> set is. keys n ! (i - 1) > keys n ! i))
     \<and> (cout st' = [] \<longleftrightarrow> cout st = [] \<and> \<not> (\<exists>i \<in> set is. keys n ! (i - 1) > keys n ! i))"
proof (induction "is" arbitrary: st)
  case Nil
  then show ?case by simp
next
  case (Cons i "is")
  from Cons.prems(2) have i: "nat (int i - 1) = i - 1" by simp
  from Cons.prems(1) obtain a b where
    a: "key_at n (int i - 1) = Inr a" and b: "key_at n (int i) = Inr b"
    and r: "keys_loop n is (if a > b then st\<lparr>rc := False, cout := cout st @ [KeysOutOfOrder (addr n) (int i)]\<rparr> else st) = Inr st'"
    by (auto split: sum.splits)
  from a b i have ab: "a = keys n ! (i - 1)" "b = keys n ! i"
    by (auto simp: key_at_def split: if_splits)
  from Cons.IH[OF r] Cons.prems(2) ab show ?case by auto
qed

lemma children_loop_rc:
  "children_loop n is st = Inr st' \<Longrightarrow>
     rc st' = (rc st \<and> \<not> (\<exists>i \<in> set is. \<exists>c \<in> set (slot n i). keys c ! nat (num_keys c - 1) > keys n ! i))
     \<and> (cout st' = [] \<longleftrightarrow> cout st = [] \<and> \<not> (\<exists>i \<in> set is. \<exists>c \<in> set (slot n i). keys c ! nat (num_keys c - 1) > keys n ! i))
     \<and> num_children st' = num_children st + int (length (concat (map (slot n) is)))"
proof (induction "is" arbitrary: st)
  case Nil
  then show ?case by simp
next
  case (Cons i "is")
  from Cons.prems have len: "i < length (children n)"
    by (auto simp: child_at_def split: if_splits)
  show ?case
  proof (cases "children n ! i")
    case None
    with Cons.prems len have "children_loop n is st = Inr st'"
      by (simp add: child_at_def)
    moreover from None len have "slot n i = []" by (simp add: slot_def)
    ultimately show ?thesis using Cons.IH[of st] by simp
  next
    case (Some c)
    with Cons.prems obtain a b where
      a: "key_at c (num_keys c - 1) = Inr a" and b: "key_at n (int i) = Inr b"
      and r: "children_loop n is ((if a > b then st\<lparr>rc := False, cout := cout st @ [LeftChildTooBig (addr n) (int i)]\<rparr> else st)
                    \<lparr>allNodes := allNodes st @ [(Some n, c)], num_children := num_children st + 1\<rparr>) = Inr st'"
      by (cases "key_at c (num_keys c - 1)"; cases "key_at n (int i)")
         (auto simp: child_at_def split: if_splits)
    from a b have ab: "a = keys c ! nat (num_keys c - 1)" "b = keys n ! i"
      by (auto simp: key_at_def split: if_splits)
    from Some len have "slot n i = [c]" by (simp add: slot_def)
    with Cons.IH[OF r] ab show ?thesis by auto
  qed
qed

lemma last_child_rc:
  "last_child n st = Inr st' \<Longrightarrow>
     rc st' = (rc st \<and> \<not> right_bad n)
     \<and> (cout st' = [] \<longleftrightarrow> cout st = [] \<and> \<not> right_bad n)
     \<and> num_children st' = num_children st + int (length (last_slot n))"
proof (cases "children n ! nat (num_keys n)")
  case None
  assume a: "last_child n st = Inr st'"
  then have "0 \<le> num_keys n" "nat (num_keys n) < length (children n)"
    by (auto simp: last_child_def child_at_def split: if_splits)
  with a None show ?thesis
    by (simp add: last_child_def child_at_def right_bad_def slot_def last_slot_def)
next
  case (Some c)
  assume "last_child n st = Inr st'"
  with Some obtain a b where
    a: "key_at c 0 = Inr a" and b: "key_at n (num_keys n - 1) = Inr b"
    and r: "st' = (if a < b then st\<lparr>rc := False, cout := cout st @ [RightChildTooSmall (addr n)]\<rparr> else st)
                    \<lparr>allNodes := allNodes st @ [(Some n, c)], num_children := num_children st + 1\<rparr>"
    and k: "0 \<le> num_keys n" "nat (num_keys n) < length (children n)"
    by (cases "key_at c 0"; cases "key_at n (num_keys n - 1)")
       (auto simp: last_child_def child_at_def split: if_splits)
  from a b have ab: "a = keys c ! 0" "b = keys n ! nat (num_keys n - 1)"
    by (auto simp: key_at_def split: if_splits)
  from r Some ab k show ?thesis by (auto simp: right_bad_def slot_def last_slot_def)
qed

lemma count_check_rc:
  "count_check shw n st = Inr st' \<Longrightarrow>
     rc st' = (rc st \<and> \<not> (\<not> isLeaf n \<and> num_children st \<noteq> num_keys n + 1))
     \<and> (cout st' = [] \<longleftrightarrow> cout st = [] \<and> \<not> (\<not> isLeaf n \<and> num_children st \<noteq> num_keys n + 1))"
  by (auto simp: count_check_def split: if_splits sum.splits)

text \<open>
  After the two loops over the children and the check of the last child, \<^verbatim>\<open>num_children\<close>
  is the number of children in the slots \<^verbatim>\<open>children_[0 .. num_keys_]\<close>.
\<close>

lemma visit_steps:
  assumes "visit shw H T (p, n) st = Inr st'"
  obtains st1 st2 st3 st4 where
    "parent_check shw H T (p, n) st = Inr st1"
    "keys_loop n [1 ..< nat (num_keys n)] st1 = Inr st2"
    "children_loop n [0 ..< nat (num_keys n)] (st2\<lparr>num_children := 0\<rparr>) = Inr st3"
    "last_child n st3 = Inr st4" "count_check shw n st4 = Inr st'"
  using assms by (auto simp: visit_def Let_def split: sum.splits)

lemma counted_children:
  assumes c: "children_loop n [0 ..< nat (num_keys n)] (st2\<lparr>num_children := 0\<rparr>) = Inr st3"
    and l: "last_child n st3 = Inr st4"
  shows "num_children st4 = int (length (walk_children n))"
proof -
  from children_loop_rc[OF c]
  have n3: "num_children st3 = int (length (concat (map (slot n) [0 ..< nat (num_keys n)])))"
    by simp
  from last_child_rc[OF l]
  have n4: "num_children st4 = num_children st3 + int (length (last_slot n))" by simp
  from last_child_allNodes[OF l] have r: "0 \<le> num_keys n" "nat (num_keys n) < length (children n)"
    by auto
  from n3 n4 r have "num_children st4
      = int (length (concat (map (slot n) [0 ..< nat (num_keys n)]) @ slot n (nat (num_keys n))))"
    by (simp add: last_slot_def)
  then show ?thesis by (simp only: walk_children_slots[OF r])
qed

lemma visit_rc:
  assumes "visit shw H T (p, n) st = Inr st'"
  shows "rc st' = (rc st \<and> node_ok p n)"
    and "cout st' = [] \<longleftrightarrow> cout st = [] \<and> node_ok p n"
proof -
  from assms obtain st1 st2 st3 st4 where
    pc: "parent_check shw H T (p, n) st = Inr st1"
    and k: "keys_loop n [1 ..< nat (num_keys n)] st1 = Inr st2"
    and c: "children_loop n [0 ..< nat (num_keys n)] (st2\<lparr>num_children := 0\<rparr>) = Inr st3"
    and l: "last_child n st3 = Inr st4" and cc: "count_check shw n st4 = Inr st'"
    by (rule visit_steps)
  from parent_check_rc[OF pc]
  have s1: "rc st1 = (rc st \<and> parent n = map_option addr p)"
    "cout st1 = [] \<longleftrightarrow> cout st = [] \<and> parent n = map_option addr p"
    by simp_all
  from keys_loop_rc[OF k]
  have s2: "rc st2 = (rc st1 \<and> \<not> keys_descend n)" "cout st2 = [] \<longleftrightarrow> cout st1 = [] \<and> \<not> keys_descend n"
    by (auto simp: keys_descend_def)
  from children_loop_rc[OF c]
  have s3: "rc st3 = (rc st2 \<and> \<not> left_bad n)" "cout st3 = [] \<longleftrightarrow> cout st2 = [] \<and> \<not> left_bad n"
    by (auto simp: left_bad_def)
  from last_child_rc[OF l]
  have s4: "rc st4 = (rc st3 \<and> \<not> right_bad n)" "cout st4 = [] \<longleftrightarrow> cout st3 = [] \<and> \<not> right_bad n"
    by auto
  from count_check_rc[OF cc] counted_children[OF c l]
  have s5: "rc st' = (rc st4 \<and> \<not> count_bad n)" "cout st' = [] \<longleftrightarrow> cout st4 = [] \<and> \<not> count_bad n"
    by (auto simp: count_bad_def)
  from s1 s2 s3 s4 s5 show "rc st' = (rc st \<and> node_ok p n)"
    by (auto simp: node_ok_def)
  from s1 s2 s3 s4 s5 show "cout st' = [] \<longleftrightarrow> cout st = [] \<and> node_ok p n"
    by (auto simp: node_ok_def)
qed

text \<open>All pairs that the loop reaches from a queue.\<close>

definition walks :: "('k node option \<times> 'k node) list \<Rightarrow> ('k node option \<times> 'k node) set" where
  "walks q = (\<Union>(p, n) \<in> set q. set (walk p n))"

lemma walks_Cons:
  "walks ((p, n) # rest) = insert (p, n) (walks (rest @ map (Pair (Some n)) (walk_children n)))"
  by (auto simp: walks_def walk.simps[of p n])

lemma walks_single: "walks [(p, n)] = set (walk p n)"
  by (simp add: walks_def)

lemma validate_loop_rc:
  "validate_loop shw H T st = Inr st' \<Longrightarrow>
     rc st' = (rc st \<and> (\<forall>(p, n) \<in> walks (allNodes st). node_ok p n))
     \<and> (cout st' = [] \<longleftrightarrow> cout st = [] \<and> (\<forall>(p, n) \<in> walks (allNodes st). node_ok p n))"
proof (induction shw H T st rule: validate_loop.induct)
  case (1 shw H T st)
  show ?case
  proof (cases "allNodes st")
    case Nil
    with "1.prems" show ?thesis by (simp add: walks_def)
  next
    case (Cons check rest)
    obtain p n where check: "check = (p, n)" by (cases check)
    from "1.prems" Cons obtain st1 where
      v: "visit shw H T check (st\<lparr>allNodes := rest\<rparr>) = Inr st1"
      and l: "validate_loop shw H T st1 = Inr st'"
      by (auto split: sum.splits)
    from visit_allNodes[OF v] check
    have q: "allNodes st1 = rest @ map (Pair (Some n)) (walk_children n)" by simp
    from visit_rc[OF v[unfolded check]]
    have r1: "rc st1 = (rc st \<and> node_ok p n)" "cout st1 = [] \<longleftrightarrow> cout st = [] \<and> node_ok p n"
      by simp_all
    from "1.IH"[OF Cons v l] q r1 Cons check show ?thesis
      by (auto simp: walks_Cons)
  qed
qed

declare validate_loop.simps [simp del]

lemma validate_rc:
  assumes "validate shw H (Some t) = Inr (r, out)"
  shows "r = (\<forall>(p, n) \<in> set (walk None t). node_ok p n)"
    and "(out = []) = (\<forall>(p, n) \<in> set (walk None t). node_ok p n)"
proof -
  from assms obtain st where
    l: "validate_loop shw H t \<lparr>rc = True, cout = [], allNodes = [(None, t)], num_children = 0\<rparr> = Inr st"
    and r: "r = rc st" "out = cout st"
    by (auto simp: validate_def validateRelationships_def split: sum.splits)
  from validate_loop_rc[OF l] r
  show "r = (\<forall>(p, n) \<in> set (walk None t). node_ok p n)"
    and "(out = []) = (\<forall>(p, n) \<in> set (walk None t). node_ok p n)"
    by (simp_all add: walks_single)
qed

subsection \<open>The key reads of the validator\<close>

text \<open>
  The subscripts of \<^verbatim>\<open>keys_\<close> that the checks of one node evaluate, in the order of the
  source, each with the node whose array is read: \<^verbatim>\<open>keys_[i-1]\<close> and \<^verbatim>\<open>keys_[i]\<close>
  in the loop over the keys, \<^verbatim>\<open>child->keys_[child->num_keys_-1]\<close> and \<^verbatim>\<open>keys_[i]\<close>
  for a child in one of the first slots, \<^verbatim>\<open>child->keys_[0]\<close> and
  \<^verbatim>\<open>keys_[num_keys_-1]\<close> for the child in the last slot.
\<close>

definition key_reads :: "'k node \<Rightarrow> ('k node \<times> int) list" where
  "key_reads n =
     concat (map (\<lambda>i. [(n, int i - 1), (n, int i)]) [1 ..< nat (num_keys n)])
     @ concat (map (\<lambda>i. concat (map (\<lambda>c. [(c, num_keys c - 1), (n, int i)]) (slot n i)))
                 [0 ..< nat (num_keys n)])
     @ concat (map (\<lambda>c. [(c, 0), (n, num_keys n - 1)]) (last_slot n))"

text \<open>A subscript that lies inside the array.\<close>

definition in_array :: "'k node \<times> int \<Rightarrow> bool" where
  "in_array r = (0 \<le> snd r \<and> nat (snd r) < length (keys (fst r)))"

text \<open>
  The subscripts of \<^verbatim>\<open>keys_\<close> that \<^verbatim>\<open>getString\<close> evaluates for the label of a node:
  none when \<^verbatim>\<open>num_keys_\<close> is 0, else \<^verbatim>\<open>keys_[0]\<close>, the subscripts between 1 and
  \<^verbatim>\<open>num_keys_-2\<close>, and \<^verbatim>\<open>keys_[num_keys_-1]\<close> when \<^verbatim>\<open>num_keys_\<close> is greater than 1.
\<close>

definition label_reads :: "'k node \<Rightarrow> ('k node \<times> int) list" where
  "label_reads n =
     (if num_keys n = 0 then []
      else (n, 0) # map (\<lambda>i. (n, int i)) [1 ..< nat (num_keys n - 1)]
           @ (if num_keys n > 1 then [(n, num_keys n - 1)] else []))"

text \<open>
  The nodes whose labels the reports of one node print. The report of a wrong parent
  prints the node, the parent that the walk came from and the node that \<^verbatim>\<open>parent_\<close>
  points to; the report of a wrong number of children prints the node and the children in
  the first slots, as many as were counted.
\<close>

definition parent_report_prints ::
  "'k store \<Rightarrow> 'k node \<Rightarrow> 'k node option \<Rightarrow> 'k node \<Rightarrow> 'k node list" where
  "parent_report_prints H T p n =
     (if map_option addr p \<noteq> parent n
      then n # (case p of None \<Rightarrow> [] | Some P \<Rightarrow> [P])
           @ (case parent n of
                None \<Rightarrow> []
              | Some q \<Rightarrow> (case deref_live H T q of None \<Rightarrow> [] | Some m \<Rightarrow> [m]))
      else [])"

definition count_report_prints :: "'k node \<Rightarrow> 'k node list" where
  "count_report_prints n =
     (if count_bad n then n # concat (map (slot n) [0 ..< length (walk_children n)]) else [])"

text \<open>All subscripts of \<^verbatim>\<open>keys_\<close> that one iteration of the loop evaluates.\<close>

definition all_reads ::
  "'k store \<Rightarrow> 'k node \<Rightarrow> 'k node option \<Rightarrow> 'k node \<Rightarrow> ('k node \<times> int) list" where
  "all_reads H T p n =
     concat (map label_reads (parent_report_prints H T p n))
     @ key_reads n
     @ concat (map label_reads (count_report_prints n))"

subsection \<open>Sound trees\<close>

text \<open>
  A reached node is sound when nothing that the validator does at it is undefined: a
  recorded parent that is printed points to a live node, \<^verbatim>\<open>num_keys_\<close> is not negative and
  is an index of \<^verbatim>\<open>children_\<close>, every subscript of \<^verbatim>\<open>keys_\<close> that is evaluated lies inside
  the array, and, when the number of children is reported as wrong, the first slots, as many
  as there are children, are all occupied. A tree is sound when every node that the walk
  reaches is.
\<close>

definition sound_node :: "'k store \<Rightarrow> 'k node \<Rightarrow> 'k node option \<Rightarrow> 'k node \<Rightarrow> bool" where
  "sound_node H T p n =
     ((map_option addr p \<noteq> parent n \<longrightarrow>
         (case parent n of None \<Rightarrow> True | Some q \<Rightarrow> deref_live H T q \<noteq> None))
      \<and> 0 \<le> num_keys n \<and> nat (num_keys n) < length (children n)
      \<and> (\<forall>r \<in> set (all_reads H T p n). in_array r)
      \<and> (count_bad n \<longrightarrow> (\<forall>i \<in> set [0 ..< length (walk_children n)]. slot n i \<noteq> [])))"

definition sound_tree :: "'k store \<Rightarrow> 'k node \<Rightarrow> bool" where
  "sound_tree H t = (\<forall>(p, n) \<in> set (walk None t). sound_node H t p n)"

subsection \<open>The reads of a run that returns\<close>

text \<open>Reads of single keys.\<close>

lemma key_at_Inr: "key_at m i = Inr a \<Longrightarrow> in_array (m, i)"
  by (auto simp: key_at_def in_array_def split: if_splits)

lemma key_at_Inl:
  "key_at m x = Inl e \<Longrightarrow> e = KeyIndexOutOfBounds (addr m) x \<and> \<not> in_array (m, x)"
  by (auto simp: key_at_def in_array_def split: if_splits)

lemma key_at_in_array: "in_array (m, i) \<Longrightarrow> key_at m i = Inr (keys m ! nat i)"
  by (simp add: key_at_def in_array_def)

lemma child_at_Inl: "child_at m x = Inl e \<Longrightarrow> e = ChildIndexOutOfBounds (addr m) x"
  by (auto simp: child_at_def split: if_splits)

lemma slot_iff: "c \<in> set (slot n i) \<longleftrightarrow> i < length (children n) \<and> children n ! i = Some c"
proof (cases "i < length (children n)")
  case True
  then show ?thesis by (cases "children n ! i") (auto simp: slot_def)
next
  case False
  then show ?thesis by (simp add: slot_def)
qed

lemma parent_report_prints_iff:
  "m \<in> set (parent_report_prints H T p n) \<longleftrightarrow>
     map_option addr p \<noteq> parent n
     \<and> (m = n \<or> p = Some m \<or> (\<exists>q. parent n = Some q \<and> deref_live H T q = Some m))"
proof (cases "parent n")
  case None
  then show ?thesis by (cases p) (auto simp: parent_report_prints_def)
next
  case (Some q)
  then show ?thesis
    by (cases p; cases "deref_live H T q") (auto simp: parent_report_prints_def)
qed

lemma count_report_prints_iff:
  "m \<in> set (count_report_prints n) \<longleftrightarrow>
     count_bad n \<and> (m = n \<or> (\<exists>i \<in> set [0 ..< length (walk_children n)]. m \<in> set (slot n i)))"
  by (auto simp: count_report_prints_def)

text \<open>Reads of labels.\<close>

lemma keys_string_reads:
  "keys_string shw n is ss = Inr s \<Longrightarrow> i \<in> set is \<Longrightarrow> in_array (n, int i)"
proof (induction "is" arbitrary: ss)
  case Nil
  then show ?case by simp
next
  case (Cons j "is")
  from Cons.prems(1) obtain k where k: "key_at n (int j) = Inr k"
    and r: "keys_string shw n is (ss @ '', '' @ shw k) = Inr s"
    by (auto split: sum.splits)
  from Cons.IH[OF r] Cons.prems(2) key_at_Inr[OF k] show ?case by auto
qed

lemma keys_string_key_error:
  "keys_string shw n is ss = Inl e \<Longrightarrow>
     \<exists>j \<in> set is. e = KeyIndexOutOfBounds (addr n) (int j) \<and> \<not> in_array (n, int j)"
proof (induction "is" arbitrary: ss)
  case Nil
  then show ?case by simp
next
  case (Cons j "is")
  show ?case
  proof (cases "key_at n (int j)")
    case (Inl e')
    with Cons.prems key_at_Inl[OF Inl] show ?thesis by auto
  next
    case (Inr k)
    with Cons.prems have "keys_string shw n is (ss @ '', '' @ shw k) = Inl e" by simp
    from Cons.IH[OF this] show ?thesis by auto
  qed
qed

lemma getString_reads:
  assumes g: "getString shw n = Inr s" and r: "r \<in> set (label_reads n)"
  shows "in_array r"
proof -
  from r have nz: "num_keys n \<noteq> 0" by (auto simp: label_reads_def split: if_splits)
  with g obtain k0 ss where k0: "key_at n 0 = Inr k0"
    and ks: "keys_string shw n [1 ..< nat (num_keys n - 1)] (''['' @ shw k0) = Inr ss"
    by (auto simp: getString_def split: sum.splits if_splits)
  from r nz consider "r = (n, 0)"
    | i where "i \<in> set [1 ..< nat (num_keys n - 1)]" "r = (n, int i)"
    | "num_keys n > 1" "r = (n, num_keys n - 1)"
    by (auto simp: label_reads_def split: if_splits)
  then show ?thesis
  proof cases
    case 1
    with key_at_Inr[OF k0] show ?thesis by simp
  next
    case 2
    with keys_string_reads[OF ks] show ?thesis by simp
  next
    case 3
    with g nz k0 ks obtain kl where "key_at n (num_keys n - 1) = Inr kl"
      by (auto simp: getString_def split: sum.splits)
    from key_at_Inr[OF this] 3 show ?thesis by simp
  qed
qed

lemma getString_key_error:
  assumes g: "getString shw n = Inl e"
  shows "\<exists>i. e = KeyIndexOutOfBounds (addr n) i \<and> (n, i) \<in> set (label_reads n) \<and> \<not> in_array (n, i)"
proof -
  from g have nz: "num_keys n \<noteq> 0" by (auto simp: getString_def split: if_splits)
  show ?thesis
  proof (cases "key_at n 0")
    case (Inl e')
    with g nz have "e = e'" by (simp add: getString_def)
    with key_at_Inl[OF Inl] nz show ?thesis
      by (intro exI[of _ 0]) (simp add: label_reads_def)
  next
    case k0: (Inr k0)
    show ?thesis
    proof (cases "keys_string shw n [1 ..< nat (num_keys n - 1)] (''['' @ shw k0)")
      case (Inl e')
      with g nz k0 have "e = e'" by (simp add: getString_def)
      with keys_string_key_error[OF Inl] obtain j where
        j: "j \<in> set [1 ..< nat (num_keys n - 1)]" "e = KeyIndexOutOfBounds (addr n) (int j)"
          "\<not> in_array (n, int j)"
        by blast
      from j(1) nz have "(n, int j) \<in> set (label_reads n)"
        by (auto simp: label_reads_def)
      with j show ?thesis by blast
    next
      case ks: (Inr ss)
      with g nz k0 have gt: "num_keys n > 1"
        by (auto simp: getString_def split: if_splits)
      with g nz k0 ks obtain e' where l: "key_at n (num_keys n - 1) = Inl e'" and "e = e'"
        by (cases "key_at n (num_keys n - 1)") (auto simp: getString_def)
      with key_at_Inl[OF l] gt nz show ?thesis
        by (intro exI[of _ "num_keys n - 1"]) (simp add: label_reads_def)
    qed
  qed
qed

lemma getString_returns:
  assumes "\<forall>r \<in> set (label_reads n). in_array r"
  shows "\<exists>s. getString shw n = Inr s"
proof (cases "getString shw n")
  case (Inl e)
  from getString_key_error[OF Inl] assms show ?thesis by blast
next
  case (Inr s)
  then show ?thesis by blast
qed

lemma label_or_nullptr_reads:
  "label_or_nullptr shw p = Inr s \<Longrightarrow> p = Some m \<Longrightarrow> r \<in> set (label_reads m) \<Longrightarrow> in_array r"
  by (auto simp: label_or_nullptr_def dest: getString_reads)

lemma label_or_nullptr_key_error:
  "label_or_nullptr shw p = Inl e \<Longrightarrow>
     \<exists>m i. p = Some m \<and> e = KeyIndexOutOfBounds (addr m) i \<and> (m, i) \<in> set (label_reads m)
            \<and> \<not> in_array (m, i)"
  by (cases p) (auto simp: label_or_nullptr_def dest: getString_key_error)

lemma label_or_nullptr_returns:
  "\<forall>m. p = Some m \<longrightarrow> (\<forall>r \<in> set (label_reads m). in_array r) \<Longrightarrow>
     \<exists>s. label_or_nullptr shw p = Inr s"
  by (cases p) (auto simp: label_or_nullptr_def intro: getString_returns)

text \<open>
  The lists agree with the model of the validator: when the validator returns, every
  listed read of every reached node was inside its array.
\<close>

lemma keys_loop_reads:
  "keys_loop n is st = Inr st' \<Longrightarrow> i \<in> set is \<Longrightarrow> in_array (n, int i - 1) \<and> in_array (n, int i)"
proof (induction "is" arbitrary: st)
  case Nil
  then show ?case by simp
next
  case (Cons j "is")
  from Cons.prems(1) obtain a b st1 where
    a: "key_at n (int j - 1) = Inr a" and b: "key_at n (int j) = Inr b"
    and r: "keys_loop n is st1 = Inr st'"
    by (auto split: sum.splits)
  from Cons.IH[OF r] Cons.prems(2) key_at_Inr[OF a] key_at_Inr[OF b] show ?case by auto
qed

lemma children_loop_reads:
  "children_loop n is st = Inr st' \<Longrightarrow> i \<in> set is \<Longrightarrow> c \<in> set (slot n i) \<Longrightarrow>
     in_array (c, num_keys c - 1) \<and> in_array (n, int i)"
proof (induction "is" arbitrary: st)
  case Nil
  then show ?case by simp
next
  case (Cons j "is")
  from Cons.prems(1) have len: "j < length (children n)"
    by (auto simp: child_at_def split: if_splits)
  show ?case
  proof (cases "children n ! j")
    case None
    with Cons.prems(1) len have r: "children_loop n is st = Inr st'"
      by (simp add: child_at_def)
    from None len have "slot n j = []" by (simp add: slot_def)
    with Cons.IH[OF r] Cons.prems(2,3) show ?thesis by auto
  next
    case (Some d)
    with Cons.prems(1) len obtain a b st1 where
      a: "key_at d (num_keys d - 1) = Inr a" and b: "key_at n (int j) = Inr b"
      and r: "children_loop n is st1 = Inr st'"
      by (cases "key_at d (num_keys d - 1)"; cases "key_at n (int j)")
         (auto simp: child_at_def)
    from Some len have "slot n j = [d]" by (simp add: slot_def)
    with Cons.IH[OF r] Cons.prems(2,3) key_at_Inr[OF a] key_at_Inr[OF b] show ?thesis by auto
  qed
qed

lemma last_child_reads:
  "last_child n st = Inr st' \<Longrightarrow> c \<in> set (last_slot n) \<Longrightarrow>
     in_array (c, 0) \<and> in_array (n, num_keys n - 1)"
proof -
  assume l: "last_child n st = Inr st'" and c: "c \<in> set (last_slot n)"
  from l have k: "0 \<le> num_keys n" "nat (num_keys n) < length (children n)"
    by (auto simp: last_child_def child_at_def split: if_splits)
  with c have s: "children n ! nat (num_keys n) = Some c"
    by (auto simp: last_slot_def slot_def split: option.splits)
  with l k obtain a b where "key_at c 0 = Inr a" "key_at n (num_keys n - 1) = Inr b"
    by (cases "key_at c 0"; cases "key_at n (num_keys n - 1)")
       (auto simp: last_child_def child_at_def)
  then show ?thesis by (auto dest: key_at_Inr)
qed

lemma checks_reads:
  assumes k: "keys_loop n [1 ..< nat (num_keys n)] st1 = Inr st2"
    and c: "children_loop n [0 ..< nat (num_keys n)] st2' = Inr st3"
    and l: "last_child n st3 = Inr st4"
    and r: "r \<in> set (key_reads n)"
  shows "in_array r"
proof -
  from r consider
      i where "i \<in> set [1 ..< nat (num_keys n)]" "r = (n, int i - 1) \<or> r = (n, int i)"
    | i c where "i \<in> set [0 ..< nat (num_keys n)]" "c \<in> set (slot n i)"
        "r = (c, num_keys c - 1) \<or> r = (n, int i)"
    | c where "c \<in> set (last_slot n)" "r = (c, 0) \<or> r = (n, num_keys n - 1)"
    unfolding key_reads_def by auto
  then show ?thesis
  proof cases
    case 1
    with keys_loop_reads[OF k] show ?thesis by blast
  next
    case 2
    with children_loop_reads[OF c] show ?thesis by blast
  next
    case 3
    with last_child_reads[OF l] show ?thesis by blast
  qed
qed

text \<open>The reports: what a report that was written has read.\<close>

lemma parent_check_sound:
  assumes "parent_check shw H T (p, n) st = Inr st'"
  shows "map_option addr p \<noteq> parent n \<longrightarrow>
           (case parent n of None \<Rightarrow> True | Some q \<Rightarrow> deref_live H T q \<noteq> None)"
    and "m \<in> set (parent_report_prints H T p n) \<Longrightarrow> r \<in> set (label_reads m) \<Longrightarrow> in_array r"
proof -
  show "map_option addr p \<noteq> parent n \<longrightarrow>
           (case parent n of None \<Rightarrow> True | Some q \<Rightarrow> deref_live H T q \<noteq> None)"
  proof
    assume "map_option addr p \<noteq> parent n"
    with assms obtain x where x: "pointee H T (parent n) = Inr x"
      by (auto simp: parent_check_def split: sum.splits)
    show "case parent n of None \<Rightarrow> True | Some q \<Rightarrow> deref_live H T q \<noteq> None"
    proof (cases "parent n")
      case None
      then show ?thesis by simp
    next
      case q: (Some q)
      show ?thesis
      proof (cases "deref_live H T q")
        case None
        with x q show ?thesis by (simp add: pointee_def)
      next
        case (Some m)
        with q show ?thesis by simp
      qed
    qed
  qed
next
  assume m: "m \<in> set (parent_report_prints H T p n)" and r: "r \<in> set (label_reads m)"
  from m have w: "map_option addr p \<noteq> parent n"
    by (simp add: parent_report_prints_iff)
  with assms obtain s should x actual where
    g: "getString shw n = Inr s" and e: "label_or_nullptr shw p = Inr should"
    and q: "pointee H T (parent n) = Inr x" and a: "label_or_nullptr shw x = Inr actual"
    by (auto simp: parent_check_def split: sum.splits)
  from m consider "m = n" | "p = Some m"
    | q' where "parent n = Some q'" "deref_live H T q' = Some m"
    by (auto simp: parent_report_prints_iff)
  then show "in_array r"
  proof cases
    case 1
    with getString_reads[OF g] r show ?thesis by simp
  next
    case 2
    from label_or_nullptr_reads[OF e 2 r] show ?thesis .
  next
    case 3
    with q have "x = Some m" by (simp add: pointee_def)
    from label_or_nullptr_reads[OF a this r] show ?thesis .
  qed
qed

lemma print_children_sound:
  "print_children shw n is = Inr ss \<Longrightarrow> i \<in> set is \<Longrightarrow>
     slot n i \<noteq> [] \<and> (\<forall>c \<in> set (slot n i). \<forall>r \<in> set (label_reads c). in_array r)"
proof (induction "is" arbitrary: ss)
  case Nil
  then show ?case by simp
next
  case (Cons j "is")
  from Cons.prems(1) obtain c s ss' where len: "j < length (children n)"
    and c: "children n ! j = Some c" and g: "getString shw c = Inr s"
    and r: "print_children shw n is = Inr ss'"
    by (auto simp: child_at_def split: sum.splits option.splits if_splits)
  from len c have sl: "slot n j = [c]" by (simp add: slot_def)
  show ?case
  proof (cases "i = j")
    case True
    with sl getString_reads[OF g] show ?thesis by simp
  next
    case False
    with Cons.prems(2) have "i \<in> set is" by simp
    from Cons.IH[OF r this] show ?thesis .
  qed
qed

lemma count_check_sound:
  assumes cc: "count_check shw n st = Inr st'"
    and nc: "num_children st = int (length (walk_children n))"
  shows "count_bad n \<longrightarrow> (\<forall>i \<in> set [0 ..< length (walk_children n)]. slot n i \<noteq> [])"
    and "m \<in> set (count_report_prints n) \<Longrightarrow> r \<in> set (label_reads m) \<Longrightarrow> in_array r"
proof -
  have pr: "\<exists>s ss. getString shw n = Inr s
              \<and> print_children shw n [0 ..< length (walk_children n)] = Inr ss" if "count_bad n"
    using that cc nc by (auto simp: count_check_def count_bad_def split: sum.splits)
  show "count_bad n \<longrightarrow> (\<forall>i \<in> set [0 ..< length (walk_children n)]. slot n i \<noteq> [])"
  proof (intro impI ballI)
    fix i assume b: "count_bad n" and i: "i \<in> set [0 ..< length (walk_children n)]"
    from pr[OF b] obtain ss where "print_children shw n [0 ..< length (walk_children n)] = Inr ss"
      by blast
    from print_children_sound[OF this i] show "slot n i \<noteq> []" by simp
  qed
  assume m: "m \<in> set (count_report_prints n)" and r: "r \<in> set (label_reads m)"
  from m have b: "count_bad n" by (simp add: count_report_prints_iff)
  from pr[OF b] obtain s ss where g: "getString shw n = Inr s"
    and p: "print_children shw n [0 ..< length (walk_children n)] = Inr ss"
    by blast
  from m consider "m = n"
    | i where "i \<in> set [0 ..< length (walk_children n)]" "m \<in> set (slot n i)"
    by (auto simp: count_report_prints_iff)
  then show "in_array r"
  proof cases
    case 1
    with getString_reads[OF g] r show ?thesis by simp
  next
    case 2
    with print_children_sound[OF p 2(1)] r show ?thesis by blast
  qed
qed

lemma visit_sound:
  assumes "visit shw H T (p, n) st = Inr st'"
  shows "sound_node H T p n"
proof -
  from assms obtain st1 st2 st3 st4 where
    pc: "parent_check shw H T (p, n) st = Inr st1"
    and k: "keys_loop n [1 ..< nat (num_keys n)] st1 = Inr st2"
    and c: "children_loop n [0 ..< nat (num_keys n)] (st2\<lparr>num_children := 0\<rparr>) = Inr st3"
    and l: "last_child n st3 = Inr st4" and cc: "count_check shw n st4 = Inr st'"
    by (rule visit_steps)
  note nc = counted_children[OF c l]
  have "in_array r" if "r \<in> set (all_reads H T p n)" for r
  proof -
    from that consider m where "m \<in> set (parent_report_prints H T p n)" "r \<in> set (label_reads m)"
      | "r \<in> set (key_reads n)"
      | m where "m \<in> set (count_report_prints n)" "r \<in> set (label_reads m)"
      by (auto simp: all_reads_def)
    then show ?thesis
    proof cases
      case 1
      from parent_check_sound(2)[OF pc 1] show ?thesis .
    next
      case 2
      from checks_reads[OF k c l 2] show ?thesis .
    next
      case 3
      from count_check_sound(2)[OF cc nc 3] show ?thesis .
    qed
  qed
  with parent_check_sound(1)[OF pc] last_child_allNodes[OF l] count_check_sound(1)[OF cc nc]
  show ?thesis unfolding sound_node_def by blast
qed

lemma validate_loop_sound:
  "validate_loop shw H T st = Inr st' \<Longrightarrow> (p, n) \<in> walks (allNodes st) \<Longrightarrow> sound_node H T p n"
proof (induction shw H T st rule: validate_loop.induct)
  case (1 shw H T st)
  show ?case
  proof (cases "allNodes st")
    case Nil
    with "1.prems" show ?thesis by (simp add: walks_def)
  next
    case (Cons check rest)
    obtain q m where check: "check = (q, m)" by (cases check)
    from "1.prems"(1) Cons obtain st1 where
      v: "visit shw H T check (st\<lparr>allNodes := rest\<rparr>) = Inr st1"
      and l: "validate_loop shw H T st1 = Inr st'"
      by (auto simp: validate_loop.simps[of shw H T st] split: sum.splits)
    from visit_allNodes[OF v] check
    have q: "allNodes st1 = rest @ map (Pair (Some m)) (walk_children m)" by simp
    from "1.prems"(2) Cons check q
    have "(p, n) = (q, m) \<or> (p, n) \<in> walks (allNodes st1)"
      by (simp add: walks_Cons)
    then show ?thesis
    proof
      assume "(p, n) = (q, m)"
      with visit_sound[OF v[unfolded check]] show ?thesis by simp
    next
      assume "(p, n) \<in> walks (allNodes st1)"
      from "1.IH"[OF Cons v l this] show ?thesis .
    qed
  qed
qed

lemma validate_sound:
  assumes "validate shw H (Some t) = Inr (r, out)"
  shows "sound_tree H t"
proof -
  from assms obtain st where
    l: "validate_loop shw H t \<lparr>rc = True, cout = [], allNodes = [(None, t)], num_children = 0\<rparr> = Inr st"
    by (auto simp: validate_def validateRelationships_def split: sum.splits)
  from validate_loop_sound[OF l] show ?thesis
    by (auto simp: sound_tree_def walks_single)
qed

lemma validate_reads:
  assumes "validate shw H (Some t) = Inr (r, out)" and "(p, n) \<in> set (walk None t)"
    and "x \<in> set (key_reads n)"
  shows "in_array x"
proof -
  from validate_sound[OF assms(1)] assms(2) have "sound_node H t p n"
    by (auto simp: sound_tree_def)
  with assms(3) show ?thesis by (simp add: sound_node_def all_reads_def)
qed

subsection \<open>The read that ends a run\<close>

text \<open>
  The other direction: a run that ends at a key subscript outside its array ends at one of
  the listed reads of a reached node.
\<close>

lemma keys_loop_key_error:
  "keys_loop n is st = Inl (KeyIndexOutOfBounds a i) \<Longrightarrow>
     \<exists>j \<in> set is. a = addr n \<and> (i = int j - 1 \<or> i = int j) \<and> \<not> in_array (n, i)"
proof (induction "is" arbitrary: st)
  case Nil
  then show ?case by simp
next
  case (Cons j "is")
  show ?case
  proof (cases "key_at n (int j - 1)")
    case (Inl e)
    with Cons.prems key_at_Inl[OF Inl] show ?thesis by auto
  next
    case a: (Inr x)
    show ?thesis
    proof (cases "key_at n (int j)")
      case (Inl e)
      with Cons.prems a key_at_Inl[OF Inl] show ?thesis by auto
    next
      case (Inr y)
      with Cons.prems a obtain st1 where "keys_loop n is st1 = Inl (KeyIndexOutOfBounds a i)"
        by auto
      from Cons.IH[OF this] show ?thesis by auto
    qed
  qed
qed

lemma children_loop_key_error:
  "children_loop n is st = Inl (KeyIndexOutOfBounds a i) \<Longrightarrow>
     \<exists>j \<in> set is. \<exists>c \<in> set (slot n j).
        (a = addr c \<and> i = num_keys c - 1 \<and> \<not> in_array (c, i))
        \<or> (a = addr n \<and> i = int j \<and> \<not> in_array (n, i))"
proof (induction "is" arbitrary: st)
  case Nil
  then show ?case by simp
next
  case (Cons j "is")
  show ?case
  proof (cases "child_at n (int j)")
    case (Inl e)
    with Cons.prems child_at_Inl[OF Inl] show ?thesis by simp
  next
    case ca: (Inr s)
    then have len: "j < length (children n)" and s: "s = children n ! j"
      by (auto simp: child_at_def split: if_splits)
    show ?thesis
    proof (cases s)
      case None
      with Cons.prems ca have "children_loop n is st = Inl (KeyIndexOutOfBounds a i)" by simp
      from Cons.IH[OF this] show ?thesis by auto
    next
      case (Some c)
      with s have "children n ! j = Some c" by simp
      with len have sl: "slot n j = [c]" by (simp add: slot_def)
      show ?thesis
      proof (cases "key_at c (num_keys c - 1)")
        case (Inl e)
        with Cons.prems ca Some key_at_Inl[OF Inl] sl show ?thesis by auto
      next
        case x: (Inr x)
        show ?thesis
        proof (cases "key_at n (int j)")
          case (Inl e)
          with Cons.prems ca Some x key_at_Inl[OF Inl] sl show ?thesis by auto
        next
          case (Inr y)
          with Cons.prems ca Some x obtain st1 where
            "children_loop n is st1 = Inl (KeyIndexOutOfBounds a i)"
            by auto
          from Cons.IH[OF this] show ?thesis by auto
        qed
      qed
    qed
  qed
qed

lemma last_child_key_error:
  assumes "last_child n st = Inl (KeyIndexOutOfBounds a i)"
  shows "\<exists>c \<in> set (last_slot n).
           (a = addr c \<and> i = 0 \<and> \<not> in_array (c, i))
           \<or> (a = addr n \<and> i = num_keys n - 1 \<and> \<not> in_array (n, i))"
proof (cases "child_at n (num_keys n)")
  case (Inl e)
  with assms child_at_Inl[OF Inl] show ?thesis by (simp add: last_child_def)
next
  case ca: (Inr s)
  then have len: "0 \<le> num_keys n" "nat (num_keys n) < length (children n)"
    and s: "s = children n ! nat (num_keys n)"
    by (auto simp: child_at_def split: if_splits)
  show ?thesis
  proof (cases s)
    case None
    with assms ca show ?thesis by (simp add: last_child_def)
  next
    case (Some c)
    with s have "children n ! nat (num_keys n) = Some c" by simp
    with len have sl: "last_slot n = [c]" by (simp add: last_slot_def slot_def)
    show ?thesis
    proof (cases "key_at c 0")
      case (Inl e)
      with assms ca Some key_at_Inl[OF Inl] sl show ?thesis by (auto simp: last_child_def)
    next
      case x: (Inr x)
      show ?thesis
      proof (cases "key_at n (num_keys n - 1)")
        case (Inl e)
        with assms ca Some x key_at_Inl[OF Inl] sl show ?thesis by (auto simp: last_child_def)
      next
        case (Inr y)
        with assms ca Some x show ?thesis by (simp add: last_child_def)
      qed
    qed
  qed
qed

lemma checks_key_error:
  assumes "keys_loop n [1 ..< nat (num_keys n)] st1 = Inl (KeyIndexOutOfBounds a i)
           \<or> children_loop n [0 ..< nat (num_keys n)] st2 = Inl (KeyIndexOutOfBounds a i)
           \<or> last_child n st3 = Inl (KeyIndexOutOfBounds a i)"
  shows "\<exists>m. (m, i) \<in> set (key_reads n) \<and> addr m = a \<and> \<not> in_array (m, i)"
  using assms
proof (elim disjE)
  assume "keys_loop n [1 ..< nat (num_keys n)] st1 = Inl (KeyIndexOutOfBounds a i)"
  from keys_loop_key_error[OF this] show ?thesis
    by (auto simp: key_reads_def)
next
  assume "children_loop n [0 ..< nat (num_keys n)] st2 = Inl (KeyIndexOutOfBounds a i)"
  from children_loop_key_error[OF this] obtain j c where
    j: "j \<in> set [0 ..< nat (num_keys n)]" and c: "c \<in> set (slot n j)"
    and d: "(a = addr c \<and> i = num_keys c - 1 \<and> \<not> in_array (c, i))
            \<or> (a = addr n \<and> i = int j \<and> \<not> in_array (n, i))"
    by blast
  from j c have "(c, num_keys c - 1) \<in> set (key_reads n)" "(n, int j) \<in> set (key_reads n)"
    unfolding key_reads_def by force+
  with d show ?thesis by blast
next
  assume "last_child n st3 = Inl (KeyIndexOutOfBounds a i)"
  from last_child_key_error[OF this] obtain c where
    c: "c \<in> set (last_slot n)"
    and d: "(a = addr c \<and> i = 0 \<and> \<not> in_array (c, i))
            \<or> (a = addr n \<and> i = num_keys n - 1 \<and> \<not> in_array (n, i))"
    by blast
  from c have "(c, 0) \<in> set (key_reads n)" "(n, num_keys n - 1) \<in> set (key_reads n)"
    unfolding key_reads_def by force+
  with d show ?thesis by blast
qed

lemma pointee_no_key_error: "pointee H T q \<noteq> Inl (KeyIndexOutOfBounds a i)"
  by (auto simp: pointee_def split: option.splits)

lemma parent_check_key_error:
  assumes "parent_check shw H T (p, n) st = Inl (KeyIndexOutOfBounds a i)"
  shows "\<exists>m \<in> set (parent_report_prints H T p n).
           (m, i) \<in> set (label_reads m) \<and> addr m = a \<and> \<not> in_array (m, i)"
proof -
  from assms have w: "map_option addr p \<noteq> parent n"
    by (auto simp: parent_check_def split: if_splits)
  show ?thesis
  proof (cases "getString shw n")
    case (Inl e)
    with assms w have "e = KeyIndexOutOfBounds a i" by (simp add: parent_check_def)
    with getString_key_error[OF Inl] w show ?thesis
      by (auto simp: parent_report_prints_iff)
  next
    case g: (Inr s)
    show ?thesis
    proof (cases "label_or_nullptr shw p")
      case (Inl e)
      with assms w g have "e = KeyIndexOutOfBounds a i" by (simp add: parent_check_def)
      with label_or_nullptr_key_error[OF Inl] w show ?thesis
        by (auto simp: parent_report_prints_iff)
    next
      case e: (Inr should)
      show ?thesis
      proof (cases "pointee H T (parent n)")
        case (Inl e')
        with assms w g e pointee_no_key_error[of H T "parent n" a i] show ?thesis
          by (simp add: parent_check_def)
      next
        case q: (Inr x)
        with assms w g e obtain e' where l: "label_or_nullptr shw x = Inl e'"
          and "e' = KeyIndexOutOfBounds a i"
          by (cases "label_or_nullptr shw x") (auto simp: parent_check_def)
        with label_or_nullptr_key_error[OF l] obtain m where
          m: "x = Some m" "(m, i) \<in> set (label_reads m)" "addr m = a" "\<not> in_array (m, i)"
          by auto
        from q m(1) obtain q' where "parent n = Some q'" "deref_live H T q' = Some m"
          by (auto simp: pointee_def split: option.splits)
        with w have "m \<in> set (parent_report_prints H T p n)"
          by (simp add: parent_report_prints_iff)
        with m show ?thesis by blast
      qed
    qed
  qed
qed

lemma print_children_key_error:
  "print_children shw n is = Inl (KeyIndexOutOfBounds a i) \<Longrightarrow>
     \<exists>j \<in> set is. \<exists>c \<in> set (slot n j).
        (c, i) \<in> set (label_reads c) \<and> addr c = a \<and> \<not> in_array (c, i)"
proof (induction "is")
  case Nil
  then show ?case by simp
next
  case (Cons j "is")
  show ?case
  proof (cases "child_at n (int j)")
    case (Inl e)
    with Cons.prems child_at_Inl[OF Inl] show ?thesis by simp
  next
    case ca: (Inr s)
    then have len: "j < length (children n)" and s: "s = children n ! j"
      by (auto simp: child_at_def split: if_splits)
    show ?thesis
    proof (cases s)
      case None
      with Cons.prems ca show ?thesis by simp
    next
      case (Some c)
      with s have "children n ! j = Some c" by simp
      with len have sl: "slot n j = [c]" by (simp add: slot_def)
      show ?thesis
      proof (cases "getString shw c")
        case (Inl e)
        with Cons.prems ca Some have "e = KeyIndexOutOfBounds a i" by simp
        with getString_key_error[OF Inl] sl show ?thesis by auto
      next
        case (Inr l)
        with Cons.prems ca Some have "print_children shw n is = Inl (KeyIndexOutOfBounds a i)"
          by (cases "print_children shw n is") auto
        from Cons.IH[OF this] show ?thesis by auto
      qed
    qed
  qed
qed

lemma count_check_key_error:
  assumes cc: "count_check shw n st = Inl (KeyIndexOutOfBounds a i)"
    and nc: "num_children st = int (length (walk_children n))"
  shows "\<exists>m \<in> set (count_report_prints n).
           (m, i) \<in> set (label_reads m) \<and> addr m = a \<and> \<not> in_array (m, i)"
proof -
  from cc nc have b: "count_bad n"
    by (auto simp: count_check_def count_bad_def split: if_splits)
  show ?thesis
  proof (cases "getString shw n")
    case (Inl e)
    with cc nc b have "e = KeyIndexOutOfBounds a i" by (simp add: count_check_def count_bad_def)
    with getString_key_error[OF Inl] b show ?thesis
      by (auto simp: count_report_prints_iff)
  next
    case (Inr s)
    with cc nc b
    have "print_children shw n [0 ..< length (walk_children n)] = Inl (KeyIndexOutOfBounds a i)"
      by (cases "print_children shw n [0 ..< length (walk_children n)]")
         (auto simp: count_check_def count_bad_def)
    from print_children_key_error[OF this] obtain j c where
      j: "j \<in> set [0 ..< length (walk_children n)]" and c: "c \<in> set (slot n j)"
      and e: "(c, i) \<in> set (label_reads c)" "addr c = a" "\<not> in_array (c, i)"
      by blast
    from b j c have "c \<in> set (count_report_prints n)"
      by (auto simp: count_report_prints_iff)
    with e show ?thesis by blast
  qed
qed

lemma visit_key_error:
  assumes "visit shw H T (p, n) st = Inl (KeyIndexOutOfBounds a i)"
  shows "\<exists>m. (m, i) \<in> set (all_reads H T p n) \<and> addr m = a \<and> \<not> in_array (m, i)"
proof (cases "parent_check shw H T (p, n) st")
  case (Inl e)
  with assms have "parent_check shw H T (p, n) st = Inl (KeyIndexOutOfBounds a i)"
    by (simp add: visit_def)
  from parent_check_key_error[OF this] show ?thesis
    by (auto simp: all_reads_def)
next
  case pc: (Inr st1)
  show ?thesis
  proof (cases "keys_loop n [1 ..< nat (num_keys n)] st1")
    case (Inl e)
    with assms pc have "keys_loop n [1 ..< nat (num_keys n)] st1 = Inl (KeyIndexOutOfBounds a i)"
      by (simp add: visit_def)
    from checks_key_error[OF disjI1, OF this] show ?thesis
      by (auto simp: all_reads_def)
  next
    case kl: (Inr st2)
    show ?thesis
    proof (cases "children_loop n [0 ..< nat (num_keys n)] (st2\<lparr>num_children := 0\<rparr>)")
      case (Inl e)
      with assms pc kl
      have "children_loop n [0 ..< nat (num_keys n)] (st2\<lparr>num_children := 0\<rparr>)
          = Inl (KeyIndexOutOfBounds a i)"
        by (simp add: visit_def)
      from checks_key_error[OF disjI2, OF disjI1, OF this] show ?thesis
        by (auto simp: all_reads_def)
    next
      case cl: (Inr st3)
      show ?thesis
      proof (cases "last_child n st3")
        case (Inl e)
        with assms pc kl cl have "last_child n st3 = Inl (KeyIndexOutOfBounds a i)"
          by (simp add: visit_def)
        from checks_key_error[OF disjI2, OF disjI2, OF this] show ?thesis
          by (auto simp: all_reads_def)
      next
        case lc: (Inr st4)
        with assms pc kl cl have "count_check shw n st4 = Inl (KeyIndexOutOfBounds a i)"
          by (simp add: visit_def)
        from count_check_key_error[OF this counted_children[OF cl lc]] show ?thesis
          by (auto simp: all_reads_def)
      qed
    qed
  qed
qed

lemma validate_loop_key_error:
  "validate_loop shw H T st = Inl (KeyIndexOutOfBounds a i) \<Longrightarrow>
     \<exists>(p, n) \<in> walks (allNodes st).
        \<exists>m. (m, i) \<in> set (all_reads H T p n) \<and> addr m = a \<and> \<not> in_array (m, i)"
proof (induction shw H T st rule: validate_loop.induct)
  case (1 shw H T st)
  show ?case
  proof (cases "allNodes st")
    case Nil
    with "1.prems" show ?thesis by (simp add: validate_loop.simps[of shw H T st])
  next
    case (Cons check rest)
    obtain q m where check: "check = (q, m)" by (cases check)
    show ?thesis
    proof (cases "visit shw H T check (st\<lparr>allNodes := rest\<rparr>)")
      case (Inl e)
      with "1.prems" Cons
      have "visit shw H T (q, m) (st\<lparr>allNodes := rest\<rparr>) = Inl (KeyIndexOutOfBounds a i)"
        by (simp add: validate_loop.simps[of shw H T st] check)
      from visit_key_error[OF this] Cons check show ?thesis
        by (auto simp: walks_Cons)
    next
      case (Inr st1)
      with "1.prems" Cons have l: "validate_loop shw H T st1 = Inl (KeyIndexOutOfBounds a i)"
        by (simp add: validate_loop.simps[of shw H T st])
      from visit_allNodes[OF Inr] check
      have "allNodes st1 = rest @ map (Pair (Some m)) (walk_children m)" by simp
      with "1.IH"[OF Cons Inr l] Cons check show ?thesis
        by (auto simp: walks_Cons)
    qed
  qed
qed

lemma validate_key_error:
  assumes "validate shw H (Some t) = Inl (KeyIndexOutOfBounds a i)"
  shows "\<exists>(p, n) \<in> set (walk None t).
           \<exists>m. (m, i) \<in> set (all_reads H t p n) \<and> addr m = a \<and> \<not> in_array (m, i)"
proof -
  from assms
  have "validate_loop shw H t \<lparr>rc = True, cout = [], allNodes = [(None, t)], num_children = 0\<rparr>
      = Inl (KeyIndexOutOfBounds a i)"
    by (auto simp: validate_def validateRelationships_def split: sum.splits)
  from validate_loop_key_error[OF this] show ?thesis by (simp add: walks_single)
qed

subsection \<open>The runs that return\<close>

text \<open>On a sound tree every step of the validator returns, and so does the validator.\<close>

lemma keys_loop_returns:
  "\<forall>i \<in> set is. in_array (n, int i - 1) \<and> in_array (n, int i) \<Longrightarrow>
     \<exists>st'. keys_loop n is st = Inr st'"
  by (induction "is" arbitrary: st) (simp_all add: key_at_in_array)

lemma children_loop_returns:
  "\<forall>i \<in> set is. i < length (children n)
       \<and> (\<forall>c \<in> set (slot n i). in_array (c, num_keys c - 1) \<and> in_array (n, int i)) \<Longrightarrow>
     \<exists>st'. children_loop n is st = Inr st'"
proof (induction "is" arbitrary: st)
  case Nil
  then show ?case by simp
next
  case (Cons i "is")
  from Cons.prems have len: "i < length (children n)" by simp
  from Cons.prems have rest: "\<forall>i \<in> set is. i < length (children n)
       \<and> (\<forall>c \<in> set (slot n i). in_array (c, num_keys c - 1) \<and> in_array (n, int i))" by simp
  show ?case
  proof (cases "children n ! i")
    case None
    with len Cons.IH[OF rest, of st] show ?thesis by (simp add: child_at_def)
  next
    case (Some c)
    with len have "c \<in> set (slot n i)" by (simp add: slot_iff)
    with Cons.prems have "in_array (c, num_keys c - 1)" "in_array (n, int i)" by auto
    with Some len Cons.IH[OF rest] show ?thesis
      by (simp add: child_at_def key_at_in_array)
  qed
qed

lemma last_child_returns:
  assumes "0 \<le> num_keys n" and "nat (num_keys n) < length (children n)"
    and "\<forall>c \<in> set (last_slot n). in_array (c, 0) \<and> in_array (n, num_keys n - 1)"
  shows "\<exists>st'. last_child n st = Inr st'"
proof (cases "children n ! nat (num_keys n)")
  case None
  with assms(1,2) show ?thesis by (simp add: last_child_def child_at_def)
next
  case (Some c)
  with assms(1,2) have "c \<in> set (last_slot n)" by (simp add: last_slot_def slot_iff)
  with assms(3) have "in_array (c, 0)" "in_array (n, num_keys n - 1)" by auto
  with Some assms(1,2) show ?thesis
    by (simp add: last_child_def child_at_def key_at_in_array)
qed

lemma print_children_returns:
  "\<forall>i \<in> set is. slot n i \<noteq> [] \<and> (\<forall>c \<in> set (slot n i). \<forall>r \<in> set (label_reads c). in_array r) \<Longrightarrow>
     \<exists>ss. print_children shw n is = Inr ss"
proof (induction "is")
  case Nil
  then show ?case by simp
next
  case (Cons i "is")
  from Cons.prems obtain c where c: "c \<in> set (slot n i)" by (cases "slot n i") auto
  then have s: "i < length (children n)" "children n ! i = Some c" by (simp_all add: slot_iff)
  from Cons.prems c have "\<forall>r \<in> set (label_reads c). in_array r" by simp
  from getString_returns[OF this] obtain l where g: "getString shw c = Inr l" by blast
  from Cons.prems have "\<forall>i \<in> set is. slot n i \<noteq> []
      \<and> (\<forall>c \<in> set (slot n i). \<forall>r \<in> set (label_reads c). in_array r)" by simp
  from Cons.IH[OF this] obtain ss where "print_children shw n is = Inr ss" by blast
  with s g show ?case by (simp add: child_at_def)
qed

lemma parent_check_returns:
  assumes p: "map_option addr p \<noteq> parent n \<longrightarrow>
                (case parent n of None \<Rightarrow> True | Some q \<Rightarrow> deref_live H T q \<noteq> None)"
    and r: "\<forall>m \<in> set (parent_report_prints H T p n). \<forall>r \<in> set (label_reads m). in_array r"
  shows "\<exists>st1. parent_check shw H T (p, n) st = Inr st1"
proof (cases "map_option addr p = parent n")
  case True
  then show ?thesis by (simp add: parent_check_def)
next
  case False
  from False have "n \<in> set (parent_report_prints H T p n)"
    by (simp add: parent_report_prints_iff)
  with r have "\<forall>r \<in> set (label_reads n). in_array r" by blast
  from getString_returns[OF this] obtain s where g: "getString shw n = Inr s" by blast
  from False r have "\<forall>m. p = Some m \<longrightarrow> (\<forall>r \<in> set (label_reads m). in_array r)"
    by (auto simp: parent_report_prints_iff)
  from label_or_nullptr_returns[OF this] obtain should where
    e: "label_or_nullptr shw p = Inr should" by blast
  from False p obtain x where x: "pointee H T (parent n) = Inr x"
    by (cases "parent n") (auto simp: pointee_def)
  have "\<forall>r \<in> set (label_reads m). in_array r" if "x = Some m" for m
  proof -
    from x that obtain q where "parent n = Some q" "deref_live H T q = Some m"
      by (cases "parent n") (auto simp: pointee_def split: option.splits)
    with False have "m \<in> set (parent_report_prints H T p n)"
      by (simp add: parent_report_prints_iff)
    with r show ?thesis by blast
  qed
  then have "\<forall>m. x = Some m \<longrightarrow> (\<forall>r \<in> set (label_reads m). in_array r)" by blast
  from label_or_nullptr_returns[OF this] obtain actual where
    a: "label_or_nullptr shw x = Inr actual" by blast
  from False g e x a show ?thesis by (simp add: parent_check_def)
qed

lemma count_check_returns:
  assumes nc: "num_children st = int (length (walk_children n))"
    and s: "count_bad n \<longrightarrow> (\<forall>i \<in> set [0 ..< length (walk_children n)]. slot n i \<noteq> [])"
    and r: "\<forall>m \<in> set (count_report_prints n). \<forall>r \<in> set (label_reads m). in_array r"
  shows "\<exists>st'. count_check shw n st = Inr st'"
proof (cases "count_bad n")
  case False
  with nc show ?thesis by (auto simp: count_check_def count_bad_def)
next
  case True
  then have "n \<in> set (count_report_prints n)"
    by (simp add: count_report_prints_iff)
  with r have "\<forall>r \<in> set (label_reads n). in_array r" by blast
  from getString_returns[OF this] obtain l where g: "getString shw n = Inr l" by blast
  from True s r have "\<forall>i \<in> set [0 ..< length (walk_children n)].
      slot n i \<noteq> [] \<and> (\<forall>c \<in> set (slot n i). \<forall>r \<in> set (label_reads c). in_array r)"
    by (auto simp: count_report_prints_iff)
  from print_children_returns[OF this] obtain ss where
    "print_children shw n [0 ..< length (walk_children n)] = Inr ss" by blast
  with g nc show ?thesis by (simp add: count_check_def)
qed

lemma visit_returns:
  assumes "sound_node H T p n"
  shows "\<exists>st'. visit shw H T (p, n) st = Inr st'"
proof -
  from assms have pos: "0 \<le> num_keys n" "nat (num_keys n) < length (children n)"
    and reads: "\<And>r. r \<in> set (all_reads H T p n) \<Longrightarrow> in_array r"
    by (auto simp: sound_node_def)
  have kreads: "in_array r" if "r \<in> set (key_reads n)" for r
    using that by (intro reads) (simp add: all_reads_def)
  from assms
  have "map_option addr p \<noteq> parent n \<longrightarrow>
          (case parent n of None \<Rightarrow> True | Some q \<Rightarrow> deref_live H T q \<noteq> None)"
    unfolding sound_node_def by blast
  moreover have "\<forall>m \<in> set (parent_report_prints H T p n). \<forall>r \<in> set (label_reads m). in_array r"
    by (auto intro!: reads simp: all_reads_def)
  ultimately obtain st1 where pc: "parent_check shw H T (p, n) st = Inr st1"
    using parent_check_returns by blast
  have "\<forall>i \<in> set [1 ..< nat (num_keys n)]. in_array (n, int i - 1) \<and> in_array (n, int i)"
  proof (intro ballI conjI)
    fix i assume "i \<in> set [1 ..< nat (num_keys n)]"
    then have "(n, int i - 1) \<in> set (key_reads n)" "(n, int i) \<in> set (key_reads n)"
      unfolding key_reads_def by force+
    then show "in_array (n, int i - 1)" "in_array (n, int i)" by (auto intro: kreads)
  qed
  from keys_loop_returns[OF this] obtain st2 where
    k: "keys_loop n [1 ..< nat (num_keys n)] st1 = Inr st2" by blast
  have "\<forall>i \<in> set [0 ..< nat (num_keys n)]. i < length (children n)
       \<and> (\<forall>c \<in> set (slot n i). in_array (c, num_keys c - 1) \<and> in_array (n, int i))"
  proof (intro ballI conjI)
    fix i assume i: "i \<in> set [0 ..< nat (num_keys n)]"
    with pos show "i < length (children n)" by simp
    fix c assume c: "c \<in> set (slot n i)"
    from i c have "(c, num_keys c - 1) \<in> set (key_reads n)" "(n, int i) \<in> set (key_reads n)"
      unfolding key_reads_def by force+
    then show "in_array (c, num_keys c - 1)" "in_array (n, int i)" by (auto intro: kreads)
  qed
  from children_loop_returns[OF this] obtain st3 where
    c: "children_loop n [0 ..< nat (num_keys n)] (st2\<lparr>num_children := 0\<rparr>) = Inr st3" by blast
  have "\<forall>c \<in> set (last_slot n). in_array (c, 0) \<and> in_array (n, num_keys n - 1)"
  proof (intro ballI conjI)
    fix c assume "c \<in> set (last_slot n)"
    then have "(c, 0) \<in> set (key_reads n)" "(n, num_keys n - 1) \<in> set (key_reads n)"
      unfolding key_reads_def by force+
    then show "in_array (c, 0)" "in_array (n, num_keys n - 1)" by (auto intro: kreads)
  qed
  from last_child_returns[OF pos this] obtain st4 where l: "last_child n st3 = Inr st4" by blast
  from assms
  have "count_bad n \<longrightarrow> (\<forall>i \<in> set [0 ..< length (walk_children n)]. slot n i \<noteq> [])"
    unfolding sound_node_def by blast
  moreover have "\<forall>m \<in> set (count_report_prints n). \<forall>r \<in> set (label_reads m). in_array r"
    by (auto intro!: reads simp: all_reads_def)
  ultimately obtain st' where "count_check shw n st4 = Inr st'"
    using count_check_returns[OF counted_children[OF c l]] by blast
  with pc k c l show ?thesis by (auto simp: visit_def)
qed

lemma validate_loop_returns:
  "\<forall>(p, n) \<in> walks (allNodes st). sound_node H T p n \<Longrightarrow>
     \<exists>st'. validate_loop shw H T st = Inr st'"
proof (induction shw H T st rule: validate_loop.induct)
  case (1 shw H T st)
  show ?case
  proof (cases "allNodes st")
    case Nil
    then show ?thesis by (simp add: validate_loop.simps[of shw H T st])
  next
    case (Cons check rest)
    obtain p n where check: "check = (p, n)" by (cases check)
    from "1.prems" Cons check have "sound_node H T p n" and
      rest: "\<forall>(q, m) \<in> walks (rest @ map (Pair (Some n)) (walk_children n)). sound_node H T q m"
      by (auto simp: walks_Cons)
    from visit_returns[OF this(1)] check obtain st1 where
      v: "visit shw H T check (st\<lparr>allNodes := rest\<rparr>) = Inr st1" by blast
    from visit_allNodes[OF v] check
    have "allNodes st1 = rest @ map (Pair (Some n)) (walk_children n)" by simp
    with rest "1.IH"[OF Cons v] obtain st' where "validate_loop shw H T st1 = Inr st'" by auto
    with Cons v show ?thesis by (simp add: validate_loop.simps[of shw H T st])
  qed
qed

lemma validate_returns:
  assumes "sound_tree H t"
  shows "\<exists>r out. validate shw H (Some t) = Inr (r, out)"
proof -
  from assms have "\<forall>(p, n) \<in> walks [(None, t)]. sound_node H t p n"
    by (simp add: sound_tree_def walks_single)
  then have "\<exists>st'. validate_loop shw H t
      \<lparr>rc = True, cout = [], allNodes = [(None, t)], num_children = 0\<rparr> = Inr st'"
    by (intro validate_loop_returns) simp
  then show ?thesis by (auto simp: validate_def validateRelationships_def)
qed


subsection \<open>Facts about the walk and about non-descending keys\<close>

lemma walk_self: "(p, n) \<in> set (walk p n)"
  by (subst walk.simps) simp


lemma set_present: "c \<in> set (present xs) \<longleftrightarrow> Some c \<in> set xs"
  by (induction xs rule: present.induct) auto

lemma slot_present: "c \<in> set (slot n i) \<Longrightarrow> c \<in> set (present (children n))"
  by (auto simp: slot_iff set_present dest: nth_mem)

lemma last_slot_present: "c \<in> set (last_slot n) \<Longrightarrow> c \<in> set (present (children n))"
  by (auto simp: last_slot_def dest: slot_present split: if_splits)



section \<open>The layout engine\<close>

subsection \<open>Characters, machine integers and the printing of keys\<close>

definition newline :: char where
  "newline = CHR 0x0A"

text \<open>
  The offsets of the layout are \<^verbatim>\<open>int\<close>, string lengths are \<^verbatim>\<open>size_t\<close> and the
  span of a node is stored in an \<^verbatim>\<open>unsigned int\<close>. The model computes in \<open>int\<close> and
  writes each conversion out: to \<^verbatim>\<open>int\<close> (32 bits, two's complement), to
  \<^verbatim>\<open>unsigned int\<close> (32 bits) and to \<^verbatim>\<open>size_t\<close> (64 bits). The difference of two
  \<^verbatim>\<open>int\<close> offsets is taken exactly: it overflows only for offsets beyond \<open>2 ^ 30\<close>.
\<close>

definition to_int :: "int \<Rightarrow> int" where
  "to_int x = (x + 2 ^ 31) mod 2 ^ 32 - 2 ^ 31"

definition to_unsigned :: "int \<Rightarrow> int" where
  "to_unsigned x = x mod 2 ^ 32"

definition to_size_t :: "int \<Rightarrow> int" where
  "to_size_t x = x mod 2 ^ 64"

text \<open>For keys of type \<^verbatim>\<open>int\<close>, \<^verbatim>\<open>operator<<\<close> writes the decimal numeral.\<close>

definition digit :: "nat \<Rightarrow> char" where
  "digit d = char_of (48 + d)"

function show_nat :: "nat \<Rightarrow> string" where
  "show_nat n = (if n < 10 then [digit n] else show_nat (n div 10) @ [digit (n mod 10)])"
  by pat_completeness auto
termination
  by (relation "measure id") auto

declare show_nat.simps [simp del]

definition show_int :: "int \<Rightarrow> string" where
  "show_int i = (if i < 0 then CHR ''-'' # show_nat (nat (- i)) else show_nat (nat i))"

subsection \<open>Offsets\<close>

text \<open>
  \<^verbatim>\<open>struct location\<close> and the map \<^verbatim>\<open>offsets\<close> from node addresses to locations. The
  map is kept as a list of entries with distinct keys, in the order of insertion:
  \<open>map_of\<close> is \<^verbatim>\<open>find\<close>, \<open>emplace\<close> inserts unless the key is there, \<open>assign\<close>
  overwrites the entry that \<^verbatim>\<open>find\<close> returned.
\<close>

record location =
  loc_begin :: int
  loc_end :: int

type_synonym offsets = "(addr \<times> location) list"

definition emplace :: "offsets \<Rightarrow> addr \<Rightarrow> location \<Rightarrow> offsets" where
  "emplace offs a l = (case map_of offs a of None \<Rightarrow> offs @ [(a, l)] | Some _ \<Rightarrow> offs)"

fun assign :: "offsets \<Rightarrow> addr \<Rightarrow> location \<Rightarrow> offsets" where
  "assign [] a l = []"
| "assign ((b, m) # offs) a l = (if a = b then (b, l) # offs else (b, m) # assign offs a l)"

subsection \<open>The index of a node among the children of its parent\<close>

text \<open>
  Modelled from the spec: \<^verbatim>\<open>Node::getMyChildIdx\<close> is declared outside the source file.
  The spec propagates an offset while the node "is its parent's first child" or "is its
  parent's last child": the index is that of the slot of \<^verbatim>\<open>parent_->children_\<close> that
  holds this node. For a node that no slot of its recorded parent holds, the spec gives no
  value, and the model stops with \<open>NotAChild\<close>.
\<close>

fun index_of :: "addr \<Rightarrow> 'k node option list \<Rightarrow> nat option" where
  "index_of a [] = None"
| "index_of a (c # cs) =
     (if map_option addr c = Some a then Some 0 else map_option Suc (index_of a cs))"

definition getMyChildIdx :: "'k node \<Rightarrow> 'k node \<Rightarrow> error + int" where
  "getMyChildIdx T node =
     (case parent node of
        None \<Rightarrow> Inl NullDereference
      | Some p \<Rightarrow>
         (case deref T p of
            None \<Rightarrow> Inl (InvalidPointer p)
          | Some P \<Rightarrow>
             (case index_of (addr node) (children P) of
                None \<Rightarrow> Inl (NotAChild (addr node))
              | Some i \<Rightarrow> Inr (int i))))"

subsection \<open>Pass 1: measurement\<close>

text \<open>
  The two recursive closures. Each takes the map and what was written to
  \<^verbatim>\<open>std::cout\<close> and returns them updated. They recurse along parent pointers, so they are
  partial functions: \<open>None\<close> is a recursion that does not end.
\<close>

definition logic_error :: string where
  "logic_error = ''logic error'' @ [newline]"

partial_function (option) SetBeginLocation ::
  "'k node \<Rightarrow> 'k node \<Rightarrow> int \<Rightarrow> offsets \<times> string list \<Rightarrow> (error + offsets \<times> string list) option"
where
  "SetBeginLocation T node b st =
     (case map_of (fst st) (addr node) of
        None \<Rightarrow> Some (Inr (fst st, snd st @ [logic_error]))
      | Some l \<Rightarrow>
         (let offs = assign (fst st) (addr node) (l\<lparr>loc_begin := b\<rparr>)
          in case parent node of
               None \<Rightarrow> Some (Inr (offs, snd st))
             | Some p \<Rightarrow>
                (case getMyChildIdx T node of
                   Inl e \<Rightarrow> Some (Inl e)
                 | Inr myidx \<Rightarrow>
                    if myidx = 0
                    then (case deref T p of
                            None \<Rightarrow> Some (Inl (InvalidPointer p))
                          | Some P \<Rightarrow> SetBeginLocation T P b (offs, snd st))
                    else Some (Inr (offs, snd st)))))"

partial_function (option) SetEndLocation ::
  "('k \<Rightarrow> string) \<Rightarrow> 'k node \<Rightarrow> 'k node \<Rightarrow> int \<Rightarrow> offsets \<times> string list
     \<Rightarrow> (error + offsets \<times> string list) option"
where
  "SetEndLocation shw T node e st =
     (case map_of (fst st) (addr node) of
        None \<Rightarrow> Some (Inr (fst st, snd st @ [logic_error]))
      | Some l \<Rightarrow>
         (let l' = l\<lparr>loc_end := e\<rparr>;
              offs = assign (fst st) (addr node) l'
          in case parent node of
               None \<Rightarrow> Some (Inr (offs, snd st))
             | Some p \<Rightarrow>
                (case getMyChildIdx T node of
                   Inl err \<Rightarrow> Some (Inl err)
                 | Inr myidx \<Rightarrow>
                    (case deref T p of
                       None \<Rightarrow> Some (Inl (InvalidPointer p))
                     | Some P \<Rightarrow>
                        if myidx = num_keys P
                        then (case getString shw node of
                                Inl err \<Rightarrow> Some (Inl err)
                              | Inr s \<Rightarrow>
                                 (let whitespace_width = loc_end l' - loc_begin l';
                                      trailing_whitespace_width =
                                        to_size_t (to_size_t (whitespace_width sdiv 2)
                                                   - (int (length s) + 1) div 2)
                                  in SetEndLocation shw T P
                                       (to_int (to_size_t (to_size_t e - trailing_whitespace_width)))
                                       (offs, snd st)))
                        else Some (Inr (offs, snd st))))))"

declare SetBeginLocation.simps [code]

declare SetEndLocation.simps [code]

text \<open>
  The queue \<^verbatim>\<open>nodes_to_be_printed\<close> holds node pointers and the address of the local
  node \<^verbatim>\<open>end_of_level\<close>, which marks the end of a line.
\<close>

datatype 'k qitem = Item "'k node" | EndOfLevel

text \<open>
  The measure that shows that both loops over the queue end: a node is replaced by its
  children, and the marker moves to the back only when a node is in front of the rest.
\<close>

fun qsize :: "'k qitem \<Rightarrow> nat" where
  "qsize (Item n) = size n"
| "qsize EndOfLevel = 0"

definition qmeasure :: "'k qitem list \<Rightarrow> nat" where
  "qmeasure q = 2 * sum_list (map qsize q) + (case q of EndOfLevel # _ \<Rightarrow> 1 | _ \<Rightarrow> 0)"

lemma children_size: "sum_list (map size (present (children n))) < size n"
proof (cases n)
  case (Node a p ks k cs)
  with present_size[of cs] show ?thesis by simp
qed

lemma qsize_Item: "sum_list (map (qsize \<circ> Item) ns) = sum_list (map size ns)"
  by (induction ns) auto

lemma qmeasure_Item:
  "qmeasure (rest @ map Item (present (children node))) < qmeasure (Item node # rest)"
proof -
  define k :: nat where
    "k = (case rest @ map Item (present (children node)) of EndOfLevel # _ \<Rightarrow> 1 | _ \<Rightarrow> 0)"
  have "k \<le> 1"
    by (simp add: k_def split: list.splits qitem.splits)
  with children_size[of node] show ?thesis
    unfolding qmeasure_def k_def[symmetric] by (simp add: qsize_Item)
qed

lemma qmeasure_EndOfLevel:
  "hd (rest @ [EndOfLevel]) \<noteq> EndOfLevel \<Longrightarrow>
     qmeasure (rest @ [EndOfLevel]) < qmeasure (EndOfLevel # rest)"
  by (cases rest) (auto simp: qmeasure_def split: qitem.splits)

text \<open>The variables of the first loop.\<close>

record 'k lstate =
  nodes_to_be_printed :: "'k qitem list"
  offsets :: offsets
  current_offset :: int
  stdout :: "string list"

text \<open>
  The body of the first loop for a node: a leaf gets the span of its label and one
  separator and propagates its offsets upwards; an internal node gets the span \<open>(0, 0)\<close>.
  The compound assignment \<^verbatim>\<open>current_offset += length + 1\<close> adds in \<^verbatim>\<open>size_t\<close> and
  converts the sum to \<^verbatim>\<open>int\<close>.
\<close>

definition measure_node ::
  "('k \<Rightarrow> string) \<Rightarrow> 'k node \<Rightarrow> 'k node \<Rightarrow> 'k lstate \<Rightarrow> (error + 'k lstate) option" where
  "measure_node shw T node st =
     (if isLeaf node
      then (case getString shw node of
              Inl e \<Rightarrow> Some (Inl e)
            | Inr s \<Rightarrow>
               (let start_offset = current_offset st;
                    cur = to_int (to_size_t (to_size_t (current_offset st) + (int (length s) + 1)));
                    l = \<lparr>loc_begin = start_offset, loc_end = cur\<rparr>;
                    offs = emplace (offsets st) (addr node) l
                in case SetBeginLocation T node start_offset (offs, stdout st) of
                     None \<Rightarrow> None
                   | Some (Inl e) \<Rightarrow> Some (Inl e)
                   | Some (Inr st1) \<Rightarrow>
                      (case SetEndLocation shw T node cur st1 of
                         None \<Rightarrow> None
                       | Some (Inl e) \<Rightarrow> Some (Inl e)
                       | Some (Inr st2) \<Rightarrow>
                          Some (Inr (st\<lparr>offsets := fst st2, current_offset := cur,
                                        stdout := snd st2\<rparr>)))))
      else Some (Inr (st\<lparr>offsets := emplace (offsets st) (addr node) \<lparr>loc_begin = 0, loc_end = 0\<rparr>\<rparr>)))"

lemma measure_node_queue:
  "measure_node shw T node st = Some (Inr st') \<Longrightarrow> nodes_to_be_printed st' = nodes_to_be_printed st"
  by (auto simp: measure_node_def Let_def split: if_splits sum.splits option.splits)

text \<open>
  The first loop. \<^verbatim>\<open>node->kMaxNumChildren\<close> is the capacity of \<^verbatim>\<open>children_\<close>, so the
  loop over the slots appends every child that is present.
\<close>

function measure_loop ::
  "('k \<Rightarrow> string) \<Rightarrow> 'k node \<Rightarrow> 'k lstate \<Rightarrow> (error + 'k lstate) option" where
  "measure_loop shw T st =
     (case nodes_to_be_printed st of
        [] \<Rightarrow> Some (Inr st)
      | EndOfLevel # rest \<Rightarrow>
         (let st' = st\<lparr>nodes_to_be_printed := rest @ [EndOfLevel], current_offset := 0\<rparr>
          in if hd (nodes_to_be_printed st') = EndOfLevel then Some (Inr st')
             else measure_loop shw T st')
      | Item node # rest \<Rightarrow>
         (case measure_node shw T node (st\<lparr>nodes_to_be_printed := rest\<rparr>) of
            None \<Rightarrow> None
          | Some (Inl e) \<Rightarrow> Some (Inl e)
          | Some (Inr st') \<Rightarrow>
             measure_loop shw T
               (st'\<lparr>nodes_to_be_printed :=
                      nodes_to_be_printed st' @ map Item (present (children node))\<rparr>)))"
  by pat_completeness auto
termination
proof (relation "measure (\<lambda>(shw, T, st). qmeasure (nodes_to_be_printed st))")
  show "wf (measure (\<lambda>(shw, T, st). qmeasure (nodes_to_be_printed st)))" by simp
next
  fix shw :: "'k \<Rightarrow> string" and T :: "'k node" and st :: "'k lstate" and x21 rest st'
  assume "nodes_to_be_printed st = x21 # rest" "x21 = EndOfLevel"
    "st' = st\<lparr>nodes_to_be_printed := rest @ [EndOfLevel], current_offset := 0\<rparr>"
    "hd (nodes_to_be_printed st') \<noteq> EndOfLevel"
  then show "((shw, T, st'), shw, T, st) \<in> measure (\<lambda>(shw, T, st). qmeasure (nodes_to_be_printed st))"
    using qmeasure_EndOfLevel[of rest] by simp
next
  fix shw :: "'k \<Rightarrow> string" and T :: "'k node" and st :: "'k lstate" and x21 rest node x2 x2a st'
  assume "nodes_to_be_printed st = x21 # rest" "x21 = Item node"
    "measure_node shw T node (st\<lparr>nodes_to_be_printed := rest\<rparr>) = Some x2" "x2 = Inr st'"
  then show "((shw, T, st'\<lparr>nodes_to_be_printed := nodes_to_be_printed st' @ map Item (present (children node))\<rparr>), shw, T, st)
        \<in> measure (\<lambda>(shw, T, st). qmeasure (nodes_to_be_printed st))"
    using qmeasure_Item[of rest node] measure_node_queue[of shw T node "st\<lparr>nodes_to_be_printed := rest\<rparr>" st']
    by simp
qed

declare measure_loop.simps [simp del]

subsection \<open>Pass 2: rendering\<close>

text \<open>
  A string written with \<^verbatim>\<open>std::setw(w)\<close> and \<^verbatim>\<open>std::right\<close>: filled with spaces on the
  left up to the width \<open>w\<close>, and written as it is when \<open>w\<close> is not greater than its
  length.
\<close>

definition setw_right :: "int \<Rightarrow> string \<Rightarrow> string" where
  "setw_right w s = replicate (nat (w - int (length s))) CHR '' '' @ s"

text \<open>
  What the second loop writes for a node. \<^verbatim>\<open>given_length\<close> is an \<^verbatim>\<open>unsigned int\<close>,
  \<^verbatim>\<open>strlen\<close> a \<^verbatim>\<open>size_t\<close>; the arguments of \<^verbatim>\<open>std::setw\<close> are computed in
  \<^verbatim>\<open>size_t\<close> and converted to \<^verbatim>\<open>int\<close>. The variable \<^verbatim>\<open>current_offset\<close> of this
  loop is never read and is left out.
\<close>

definition print_node :: "('k \<Rightarrow> string) \<Rightarrow> offsets \<Rightarrow> 'k node \<Rightarrow> error + string" where
  "print_node shw offs node =
     (if isLeaf node
      then (case getString shw node of
              Inl e \<Rightarrow> Inl e
            | Inr s \<Rightarrow> Inr (s @ '' ''))
      else (case getString shw node of
              Inl e \<Rightarrow> Inl e
            | Inr s \<Rightarrow>
               (let str = s @ '' '';
                    strlen = int (length str)
                in case map_of offs (addr node) of
                     None \<Rightarrow> Inl NullDereference
                   | Some l \<Rightarrow>
                      (let given_length = to_unsigned (loc_end l - loc_begin l)
                       in if given_length > strlen
                          then Inr (setw_right (to_int (to_size_t (given_length div 2 + strlen div 2))) str
                                    @ setw_right (to_int (to_size_t (given_length div 2 - strlen div 2))) '' '')
                          else Inl (AssertionFailure (addr node))))))"

text \<open>The second loop; the marker ends a line.\<close>

function print_loop ::
  "('k \<Rightarrow> string) \<Rightarrow> offsets \<Rightarrow> 'k qitem list \<Rightarrow> string \<Rightarrow> error + string" where
  "print_loop shw offs q ss =
     (case q of
        [] \<Rightarrow> Inr ss
      | EndOfLevel # rest \<Rightarrow>
         (if hd (rest @ [EndOfLevel]) = EndOfLevel then Inr (ss @ [newline])
          else print_loop shw offs (rest @ [EndOfLevel]) (ss @ [newline]))
      | Item node # rest \<Rightarrow>
         (case print_node shw offs node of
            Inl e \<Rightarrow> Inl e
          | Inr s \<Rightarrow> print_loop shw offs (rest @ map Item (present (children node))) (ss @ s)))"
  by pat_completeness auto
termination
proof (relation "measure (\<lambda>(shw, offs, q, ss). qmeasure q)")
  show "wf (measure (\<lambda>(shw, offs, q, ss). qmeasure q))" by simp
next
  fix shw :: "'k \<Rightarrow> string" and offs :: offsets and q :: "'k qitem list" and ss :: string and x21 rest
  assume "q = x21 # rest" "x21 = EndOfLevel" "hd (rest @ [EndOfLevel]) \<noteq> EndOfLevel"
  then show "((shw, offs, rest @ [EndOfLevel], ss @ [newline]), shw, offs, q, ss)
        \<in> measure (\<lambda>(shw, offs, q, ss). qmeasure q)"
    using qmeasure_EndOfLevel[of rest] by simp
next
  fix shw :: "'k \<Rightarrow> string" and offs :: offsets and q :: "'k qitem list" and ss :: string
    and x21 rest node s
  assume "q = x21 # rest" "x21 = Item node"
  then show "((shw, offs, rest @ map Item (present (children node)), ss @ s), shw, offs, q, ss)
        \<in> measure (\<lambda>(shw, offs, q, ss). qmeasure q)"
    using qmeasure_Item[of rest node] by simp
qed

declare print_loop.simps [simp del]

text \<open>
  \<^verbatim>\<open>Node::getStringAll\<close>, called on the node \<open>this\<close> of the tree \<open>T\<close>: the text of the
  string stream, and what was written to \<^verbatim>\<open>std::cout\<close>.
\<close>

definition getStringAll ::
  "('k \<Rightarrow> string) \<Rightarrow> 'k node \<Rightarrow> 'k node \<Rightarrow> (error + string \<times> string list) option" where
  "getStringAll shw T this =
     (case measure_loop shw T
             \<lparr>nodes_to_be_printed = [Item this, EndOfLevel], offsets = [],
              current_offset = 0, stdout = []\<rparr> of
        None \<Rightarrow> None
      | Some (Inl e) \<Rightarrow> Some (Inl e)
      | Some (Inr st) \<Rightarrow>
         (case print_loop shw (offsets st) [Item this, EndOfLevel] [] of
            Inl e \<Rightarrow> Some (Inl e)
          | Inr ss \<Rightarrow> Some (Inr (ss @ [newline], stdout st))))"

text \<open>\<^verbatim>\<open>TwoFourTree::getString\<close>, the rendering of the whole tree.\<close>

definition tree_getString ::
  "('k \<Rightarrow> string) \<Rightarrow> 'k node option \<Rightarrow> (error + string \<times> string list) option" where
  "tree_getString shw root =
     (case root of None \<Rightarrow> Some (Inr ([], [])) | Some r \<Rightarrow> getStringAll shw r r)"

section \<open>What the validator guarantees\<close>

text \<open>A node with four empty child slots.\<close>

definition leaf :: "addr \<Rightarrow> addr option \<Rightarrow> 'k list \<Rightarrow> int \<Rightarrow> 'k node" where
  "leaf a p ks k = Node a p ks k [None, None, None, None]"



text \<open>
  A node that has a child holds at least one key, and each of its children holds at least
  one key.
\<close>

definition keyed :: "'k node \<Rightarrow> bool" where
  "keyed n = ((present (children n) \<noteq> [] \<longrightarrow> 1 \<le> num_keys n)
              \<and> (\<forall>c \<in> set (present (children n)). 1 \<le> num_keys c))"

definition all_keyed :: "'k node \<Rightarrow> bool" where
  "all_keyed t = (\<forall>(p, n) \<in> set (walk None t). keyed n)"

text \<open>Every subscript that the checks evaluate lies in \<open>[0, num_keys)\<close> of the node read.\<close>

definition reads_in_bounds :: "'k node \<Rightarrow> bool" where
  "reads_in_bounds t =
     (\<forall>(p, n) \<in> set (walk None t). \<forall>(m, i) \<in> set (key_reads n). 0 \<le> i \<and> i < num_keys m)"




definition outside_parent_tree :: "int node" where
  "outside_parent_tree =
     Node 1 None [10, 0, 0] 1
       [Some (leaf 2 (Some 99) [5, 0, 0] 1), Some (leaf 3 (Some 1) [12, 0, 0] 1), None, None]"


definition equal_keys_leaf :: "int node" where
  "equal_keys_leaf = leaf 1 None [5, 5, 0] 2"

definition descending_leaf :: "int node" where
  "descending_leaf = leaf 1 None [7, 5, 0] 2"


definition gap_tree :: "int node" where
  "gap_tree =
     Node 1 None [10, 20, 0] 2
       [Some (leaf 2 (Some 1) [5, 0, 0] 1), None, Some (leaf 3 (Some 1) [25, 0, 0] 1), None]"

definition good_tree :: "int node" where
  "good_tree =
     Node 1 None [10, 0, 0] 1
       [Some (leaf 2 (Some 1) [5, 0, 0] 1), Some (leaf 3 (Some 1) [12, 0, 0] 1), None, None]"

definition keyless_root :: "int node" where
  "keyless_root = Node 1 None [0, 0, 0] 0 [Some (leaf 2 (Some 1) [5, 0, 0] 1), None, None, None]"

text \<open>
  C1. The claim is that the validator never stops at a violation and always returns its
  verdict. On \<open>gap_tree\<close> the loops count two children for two keys, the report of the
  mismatch prints \<^verbatim>\<open>children_[i]->getString()\<close> for \<open>i = 0, 1\<close>, and slot 1 is empty:
  the run ends in the dereference of an empty pointer, at the first violation it finds and
  without a verdict.
\<close>

theorem validate_halts_on_gap:
  "validate shw H (Some gap_tree) = Inl NullDereference"
  by code_simp

text \<open>
  The theorems below are about a tree with a root. On an empty tree \<^verbatim>\<open>root_\<close> is null,
  and \<^verbatim>\<open>validate\<close> dereferences it.
\<close>

lemma validate_empty: "validate shw H None = Inl NullDereference"
  by (simp add: validate_def)

text \<open>
  A wrong parent pointer is printed through the pointer: the label of a live node outside
  the tree is written and the verdict is \<open>False\<close>; a pointer to no live node cannot be
  printed. Printing a node reads its keys: in \<open>corrupt_target_tree\<close> the first leaf
  records as its parent the node in slot 2, which the walk does not reach and whose
  \<^verbatim>\<open>num_keys_\<close> is 7, and the report ends at \<^verbatim>\<open>keys_[3]\<close> of that node.
\<close>

definition corrupt_target_tree :: "int node" where
  "corrupt_target_tree =
     Node 1 None [10, 0, 0] 1
       [Some (leaf 2 (Some 4) [5, 0, 0] 1), Some (leaf 3 (Some 1) [12, 0, 0] 1),
        Some (leaf 4 (Some 1) [30, 0, 0] 7), None]"

lemma validate_outside_parent:
  "validate show_int (Map.empty(99 \<mapsto> leaf 99 None [42, 43, 0] 2)) (Some outside_parent_tree)
     = Inr (False, [WrongParent ''[5]'' ''[10]'' ''[42, 43]''])"
  "validate show_int Map.empty (Some outside_parent_tree) = Inl (InvalidPointer 99)"
  "validate show_int Map.empty (Some corrupt_target_tree) = Inl (KeyIndexOutOfBounds 4 3)"
  by code_simp+




text \<open>
  C3. The claim is that two adjacent keys that are not strictly ascending make the verdict
  \<open>False\<close>, two equal keys included. The loop compares with \<^verbatim>\<open>keys_[i-1] > keys_[i]\<close>:
  a leaf with the keys 5, 5 passes.
\<close>

theorem validate_equal_keys_counterexample:
  "\<not> keys equal_keys_leaf ! 0 < keys equal_keys_leaf ! 1
   \<and> validate show_int Map.empty (Some equal_keys_leaf) = Inr (True, [])"
  by code_simp

text \<open>
  C3, as the code has it. When some reached node holds, among its first \<^verbatim>\<open>num_keys_\<close>
  keys, two adjacent keys of which the left one is greater than the right one, the
  validator never returns \<open>True\<close>, and it returns \<open>False\<close> exactly on the sound trees.
\<close>

theorem validate_keys_nondescending:
  assumes "(p, n) \<in> set (walk None t)"
    and "1 \<le> i" and "int i < num_keys n" and "keys n ! i < keys n ! (i - 1)"
  shows "validate shw H (Some t) \<noteq> Inr (True, out)
         \<and> (sound_tree H t \<longleftrightarrow> (\<exists>out'. validate shw H (Some t) = Inr (False, out')))"
proof -
  have no: "validate shw H (Some t) \<noteq> Inr (True, out')" for out'
  proof
    assume "validate shw H (Some t) = Inr (True, out')"
    from validate_rc(1)[OF this] assms(1) have "node_ok p n" by blast
    then have "\<not> keys_descend n" by (simp add: node_ok_def)
    moreover from assms(2,3) have "i \<in> set [1 ..< nat (num_keys n)]" by auto
    ultimately show False using assms(4) by (auto simp: keys_descend_def)
  qed
  show ?thesis
  proof (intro conjI iffI)
    show "validate shw H (Some t) \<noteq> Inr (True, out)" by (rule no)
  next
    assume "sound_tree H t"
    from validate_returns[OF this] obtain r out' where v: "validate shw H (Some t) = Inr (r, out')"
      by blast
    with no[of out'] have "\<not> r" by auto
    with v show "\<exists>out'. validate shw H (Some t) = Inr (False, out')" by auto
  next
    assume "\<exists>out'. validate shw H (Some t) = Inr (False, out')"
    then show "sound_tree H t" by (auto dest: validate_sound)
  qed
qed

theorem validate_keys_nondescending_witness:
  "(None, descending_leaf) \<in> set (walk None descending_leaf)
   \<and> (1::nat) \<le> 1 \<and> int 1 < num_keys descending_leaf
   \<and> keys descending_leaf ! 1 < keys descending_leaf ! (1 - 1)
   \<and> sound_tree Map.empty descending_leaf
   \<and> validate show_int Map.empty (Some descending_leaf) = Inr (False, [KeysOutOfOrder 1 1])"
proof -
  have h1: "(None, descending_leaf) \<in> set (walk None descending_leaf)"
    by (rule walk_self)
  have h2: "(1::nat) \<le> 1" by simp
  have h3: "int 1 < num_keys descending_leaf" by (simp add: descending_leaf_def leaf_def)
  have h4: "keys descending_leaf ! 1 < keys descending_leaf ! (1 - 1)"
    by (simp add: descending_leaf_def leaf_def)
  have h5: "sound_tree Map.empty descending_leaf"
    by code_simp
  have h6: "validate show_int Map.empty (Some descending_leaf) = Inr (False, [KeysOutOfOrder 1 1])"
    by code_simp
  from validate_keys_nondescending[OF h1 h2 h3 h4, of show_int Map.empty "[]"] h1 h2 h3 h4 h5 h6
  show ?thesis by simp
qed







text \<open>
  C9. In a tree whose reached nodes are all \<open>keyed\<close>, every subscript of \<^verbatim>\<open>keys_\<close>
  that the checks evaluate lies in \<open>[0, num_keys)\<close> of the node it reads. Without that
  condition it does not: at a node \<open>z\<close> with no key and a child in slot 0, the check of
  the last child reads \<^verbatim>\<open>keys_[-1]\<close> of \<open>z\<close>, and the run ends there.
\<close>

theorem validate_key_reads_in_bounds:
  "(all_keyed t \<longrightarrow> reads_in_bounds t)
   \<and> (parent z = None \<and> num_keys z = 0 \<and> slot z 0 = [c] \<and> keys c \<noteq> [] \<longrightarrow>
        (z, -1) \<in> set (key_reads z)
        \<and> validate shw H (Some z) = Inl (KeyIndexOutOfBounds (addr z) (-1)))"
proof (intro conjI impI)
  assume pre: "all_keyed t"
  show "reads_in_bounds t"
    unfolding reads_in_bounds_def
  proof (intro ballI, clarify)
    fix p n m i
    assume w: "(p, n) \<in> set (walk None t)" and x: "(m, i) \<in> set (key_reads n)"
    from pre w have kd: "keyed n" unfolding all_keyed_def by blast
    from x consider
        j where "j \<in> set [1 ..< nat (num_keys n)]" "(m, i) = (n, int j - 1) \<or> (m, i) = (n, int j)"
      | j d where "j \<in> set [0 ..< nat (num_keys n)]" "d \<in> set (slot n j)"
          "(m, i) = (d, num_keys d - 1) \<or> (m, i) = (n, int j)"
      | d where "d \<in> set (last_slot n)" "(m, i) = (d, 0) \<or> (m, i) = (n, num_keys n - 1)"
      unfolding key_reads_def by auto
    then show "0 \<le> i \<and> i < num_keys m"
    proof cases
      case 1
      then show ?thesis by auto
    next
      case 2
      from slot_present[OF 2(2)] kd have "1 \<le> num_keys d" by (simp add: keyed_def)
      with 2 show ?thesis by auto
    next
      case 3
      from last_slot_present[OF 3(1)] kd have "1 \<le> num_keys d" "1 \<le> num_keys n"
        by (auto simp: keyed_def)
      with 3 show ?thesis by auto
    qed
  qed
next
  assume z: "parent z = None \<and> num_keys z = 0 \<and> slot z 0 = [c] \<and> keys c \<noteq> []"
  then show "(z, -1) \<in> set (key_reads z)"
    by (simp add: key_reads_def last_slot_def)
next
  assume z: "parent z = None \<and> num_keys z = 0 \<and> slot z 0 = [c] \<and> keys c \<noteq> []"
  then have "c \<in> set (slot z 0)" by simp
  then have s: "0 < length (children z)" "children z ! 0 = Some c" by (simp_all add: slot_iff)
  from z s show "validate shw H (Some z) = Inl (KeyIndexOutOfBounds (addr z) (-1))"
    by (simp add: validate_def validateRelationships_def validate_loop.simps visit_def
          parent_check_def last_child_def child_at_def key_at_def)
qed

theorem validate_key_reads_in_bounds_witness:
  "all_keyed good_tree \<and> reads_in_bounds good_tree
   \<and> parent keyless_root = None \<and> num_keys keyless_root = 0 \<and> slot keyless_root 0 = [leaf 2 (Some 1) [5, 0, 0] 1]
   \<and> keys (leaf 2 (Some 1) [5, 0, 0] 1 :: int node) \<noteq> []
   \<and> (keyless_root, -1) \<in> set (key_reads keyless_root)
   \<and> validate show_int Map.empty (Some keyless_root)
       = Inl (KeyIndexOutOfBounds (addr keyless_root) (-1))"
proof -
  have h1: "all_keyed good_tree"
    by code_simp
  have h2: "parent keyless_root = None \<and> num_keys keyless_root = 0 \<and> slot keyless_root 0 = [leaf 2 (Some 1) [5, 0, 0] 1]
            \<and> keys (leaf 2 (Some 1) [5, 0, 0] 1 :: int node) \<noteq> []"
    by code_simp
  from validate_key_reads_in_bounds[of good_tree keyless_root "leaf 2 (Some 1) [5, 0, 0] 1"
      show_int Map.empty] h1 h2
  show ?thesis by blast
qed

section \<open>What the labels and the layout engine guarantee\<close>

subsection \<open>The label\<close>

text \<open>
  The format of the spec, \<^verbatim>\<open>[k0, k1, ..., kn-1]\<close>: the printed keys separated by a comma
  and a space, in square brackets.
\<close>

fun comma_separated :: "string list \<Rightarrow> string" where
  "comma_separated [] = []"
| "comma_separated [x] = x"
| "comma_separated (x # y # ys) = x @ '', '' @ comma_separated (y # ys)"

definition bracketed_keys :: "('k \<Rightarrow> string) \<Rightarrow> 'k list \<Rightarrow> string" where
  "bracketed_keys shw ks = ''['' @ comma_separated (map shw ks) @ '']''"

lemma keys_string_eq:
  "\<forall>i \<in> set is. i < length (keys n) \<Longrightarrow>
     keys_string shw n is ss = Inr (ss @ concat (map (\<lambda>i. '', '' @ shw (keys n ! i)) is))"
  by (induction "is" arbitrary: ss) (auto simp: key_at_def)

lemma comma_separated_Cons:
  "comma_separated (x # xs) = x @ concat (map (\<lambda>y. '', '' @ y) xs)"
  by (induction xs arbitrary: x) auto

lemma take_as_nths:
  "k \<le> length xs \<Longrightarrow> take k xs = map (\<lambda>i. xs ! i) [0 ..< k]"
  by (simp add: list_eq_iff_nth_eq)

lemma getString_one:
  assumes "num_keys n = 1" and "keys n \<noteq> []"
  shows "getString shw n = Inr (bracketed_keys shw (take 1 (keys n)))"
proof -
  from assms(2) obtain x xs where "keys n = x # xs" by (cases "keys n") auto
  with assms(1) show ?thesis
    by (simp add: getString_def key_at_def bracketed_keys_def)
qed

lemma getString_more:
  assumes "num_keys n = int (Suc (Suc m))" and "Suc (Suc m) \<le> length (keys n)"
  shows "getString shw n = Inr (bracketed_keys shw (take (Suc (Suc m)) (keys n)))"
proof -
  have k0: "key_at n 0 = Inr (keys n ! 0)"
    using assms(2) by (auto simp: key_at_def)
  have idx: "nat (num_keys n - 1) = Suc m"
    using assms(1) by simp
  have "0 \<le> num_keys n - 1"
    using assms(1) by simp
  with idx assms(2) have kl: "key_at n (num_keys n - 1) = Inr (keys n ! Suc m)"
    by (simp add: key_at_def)
  have mid: "keys_string shw n [1 ..< Suc m] (''['' @ shw (keys n ! 0))
      = Inr ((''['' @ shw (keys n ! 0)) @ concat (map (\<lambda>i. '', '' @ shw (keys n ! i)) [1 ..< Suc m]))"
    using assms(2) by (intro keys_string_eq) auto
  have upt: "[0 ..< Suc (Suc m)] = 0 # [1 ..< Suc m] @ [Suc m]"
    by (simp add: upt_conv_Cons)
  have lbl: "bracketed_keys shw (take (Suc (Suc m)) (keys n))
      = (''['' @ shw (keys n ! 0)) @ concat (map (\<lambda>i. '', '' @ shw (keys n ! i)) [1 ..< Suc m])
        @ '', '' @ shw (keys n ! Suc m) @ '']''"
    unfolding bracketed_keys_def take_as_nths[OF assms(2)] upt
    by (simp add: comma_separated_Cons comp_def del: upt_Suc)
  have "getString shw n
      = Inr (((''['' @ shw (keys n ! 0)) @ concat (map (\<lambda>i. '', '' @ shw (keys n ! i)) [1 ..< Suc m]))
             @ '', '' @ shw (keys n ! Suc m) @ '']'')"
    unfolding getString_def k0 kl idx using assms(1) mid by (simp del: upt_Suc)
  with lbl show ?thesis by simp
qed

text \<open>
  C6. For a node whose \<^verbatim>\<open>num_keys_\<close> keys lie inside its array, the label is the list
  of these keys in stored order, separated by \<open>'', ''\<close> and enclosed in square brackets;
  for no keys it is \<open>''[]''\<close>.
\<close>

theorem getString_label:
  assumes "0 \<le> num_keys n" and "nat (num_keys n) \<le> length (keys n)"
  shows "getString shw n = Inr (bracketed_keys shw (take (nat (num_keys n)) (keys n)))"
proof -
  consider "num_keys n = 0" | "num_keys n = 1" | m where "num_keys n = int (Suc (Suc m))"
  proof -
    assume a: "num_keys n = 0 \<Longrightarrow> thesis" "num_keys n = 1 \<Longrightarrow> thesis"
      "\<And>m. num_keys n = int (Suc (Suc m)) \<Longrightarrow> thesis"
    show thesis
    proof (cases "nat (num_keys n)")
      case 0
      with assms(1) a(1) show ?thesis by simp
    next
      case (Suc j)
      show ?thesis
      proof (cases j)
        case 0
        with Suc assms(1) a(2) show ?thesis by simp
      next
        case (Suc m)
        with \<open>nat (num_keys n) = Suc j\<close> assms(1) have "num_keys n = int (Suc (Suc m))" by arith
        with a(3) show ?thesis .
      qed
    qed
  qed
  then show ?thesis
  proof cases
    case 1
    then show ?thesis by (simp add: getString_def bracketed_keys_def)
  next
    case 2
    with assms(2) have "keys n \<noteq> []" by auto
    from getString_one[OF 2 this] 2 show ?thesis by simp
  next
    case 3
    with assms(2) have "Suc (Suc m) \<le> length (keys n)" by simp
    moreover from 3 have "nat (num_keys n) = Suc (Suc m)" by simp
    ultimately show ?thesis using getString_more[OF 3, of shw] by simp
  qed
qed

text \<open>A node with the keys 5, 6, 7.\<close>

definition three_keys :: "int node" where
  "three_keys = Node 1 None [5, 6, 7] 3 [None, None, None, None]"

theorem getString_label_witness:
  "0 \<le> num_keys three_keys \<and> nat (num_keys three_keys) \<le> length (keys three_keys)
   \<and> getString show_int three_keys = Inr ''[5, 6, 7]''"
proof -
  have h1: "0 \<le> num_keys three_keys" by (simp add: three_keys_def)
  have h2: "nat (num_keys three_keys) \<le> length (keys three_keys)" by (simp add: three_keys_def)
  have e: "bracketed_keys show_int (take (nat (num_keys three_keys)) (keys three_keys)) = ''[5, 6, 7]''"
    by code_simp
  from getString_label[OF h1 h2, of show_int] h1 h2 e show ?thesis by simp
qed

subsection \<open>Renderings of example trees\<close>

text \<open>
  \<open>lopsided_tree\<close> has three levels; its root has two keys and three children, and the
  middle child \<open>lop_mid\<close> has one key, a leaf in slot 0 and an empty slot 1.
\<close>

definition lop_left :: "int node" where
  "lop_left = Node 2 (Some 1) [3, 0, 0] 1
     [Some (leaf 5 (Some 2) [1, 0, 0] 1), Some (leaf 6 (Some 2) [4, 0, 0] 1), None, None]"

definition lop_mid :: "int node" where
  "lop_mid = Node 3 (Some 1) [15, 0, 0] 1 [Some (leaf 7 (Some 3) [12, 0, 0] 1), None, None, None]"

definition lop_right :: "int node" where
  "lop_right = Node 4 (Some 1) [25, 0, 0] 1
     [Some (leaf 8 (Some 4) [22, 0, 0] 1), Some (leaf 9 (Some 4) [27, 0, 0] 1), None, None]"

definition lopsided_tree :: "int node" where
  "lopsided_tree = Node 1 None [10, 20, 0] 2 [Some lop_left, Some lop_mid, Some lop_right, None]"

text \<open>The first leaf of \<open>good_tree\<close>.\<close>

definition first_leaf :: "int node" where
  "first_leaf = leaf 2 (Some 1) [5, 0, 0] 1"

text \<open>
  C8. The claim is that the tree with the root \<^verbatim>\<open>[10]\<close> and the leaves \<^verbatim>\<open>[5]\<close> and
  \<^verbatim>\<open>[12]\<close> renders as exactly two lines. The text has three line ends: the loop ends
  each of the two levels with a newline, and \<^verbatim>\<open>ss << std::endl\<close> after the loop adds an
  empty third line.
\<close>

theorem render_example_counterexample:
  "tree_getString show_int (Some good_tree)
     = Some (Inr ('' [10]   '' @ [newline] @ ''[5] [12] '' @ [newline] @ [newline], []))
   \<and> count_list ('' [10]   '' @ [newline] @ ''[5] [12] '' @ [newline] @ [newline]) newline = 3"
  by code_simp

text \<open>
  C8, as the code has it: the rendering is the root line, the leaf line and an empty line.
  The root line has 8 characters: the label \<^verbatim>\<open>[10]\<close> and its separator right-aligned in
  a field of 6, then a space right-aligned in a field of 2, over the 9 characters of the
  leaf line.
\<close>

theorem render_example:
  "tree_getString show_int (Some good_tree)
     = Some (Inr ('' [10]   '' @ [newline] @ ''[5] [12] '' @ [newline] @ [newline], []))"
  by code_simp

text \<open>
  C5. The claim is that the rendering aborts when a propagation does not find the entry of
  a node. Rendering the first leaf of \<open>good_tree\<close> propagates its begin-offset to the
  root, which has no entry because the walk started below it: the closure writes
  \<^verbatim>\<open>logic error\<close> and returns, and the rendering goes on and returns its text.
\<close>

theorem propagation_failure_counterexample:
  "map_of [(addr first_leaf, \<lparr>loc_begin = 0, loc_end = 4\<rparr>)] (addr good_tree) = None
   \<and> getStringAll show_int good_tree first_leaf
       = Some (Inr (''[5] '' @ [newline] @ [newline], [logic_error]))"
  by code_simp

text \<open>
  Rendering from a leaf whose parent is another node of the tree. The parent has no entry
  in the map. The begin-offset is propagated to it when the leaf is its child 0, the
  end-offset when the leaf is its child \<^verbatim>\<open>num_keys_\<close>; each propagation that reaches the
  parent writes \<^verbatim>\<open>logic error\<close> and returns, and both passes run to their end.
\<close>

lemma deref_addr: "deref T a = Some n \<Longrightarrow> addr n = a"
  by (auto simp: deref_def find_Some_iff)

lemma present_Nil: "\<forall>c \<in> set cs. c = None \<Longrightarrow> present cs = []"
  by (induction cs rule: present.induct) auto

lemma isLeaf_present: "isLeaf n \<Longrightarrow> present (children n) = []"
  by (simp add: isLeaf_def present_Nil)

lemma small_conversions:
  assumes "0 \<le> x" and "x < 2 ^ 31"
  shows "to_size_t x = x" and "to_int x = x" and "x sdiv 2 = x div 2"
proof -
  from assms show "to_size_t x = x" by (simp add: to_size_t_def)
  from assms show "to_int x = x" by (simp add: to_int_def)
  from assms show "x sdiv 2 = x div 2" by (cases "x = 0") (simp_all add: signed_divide_int_def)
qed

lemma leaf_propagation:
  assumes lf: "isLeaf this" and g: "getString shw this = Inr s"
    and small: "int (length s) + 1 < 2 ^ 31"
    and par: "parent this = Some p" and ne: "p \<noteq> addr this"
    and P: "deref T p = Some P" and idx: "getMyChildIdx T this = Inr i"
  shows "getStringAll shw T this
           = Some (Inr (s @ '' '' @ [newline, newline],
                        (if i = 0 then [logic_error] else [])
                        @ (if i = num_keys P then [logic_error] else [])))"
proof -
  define cur where "cur = int (length s) + 1"
  define l where "l = \<lparr>loc_begin = 0, loc_end = cur\<rparr>"
  define offs where "offs = [(addr this, l)]"
  have cur: "0 \<le> cur" "cur < 2 ^ 31" using small by (simp_all add: cur_def)
  have half: "0 \<le> cur div 2" "cur div 2 < 2 ^ 31" using cur by simp_all
  from deref_addr[OF P] ne have nP: "addr P \<noteq> addr this" by simp
  have missing: "map_of offs (addr P) = None" using nP by (simp add: offs_def)
  have found: "map_of offs (addr this) = Some l" by (simp add: offs_def)
  have same: "assign offs (addr this) l = offs" by (simp add: offs_def)
  have b: "SetBeginLocation T this 0 (offs, [])
      = Some (Inr (offs, if i = 0 then [logic_error] else []))"
    using found same par idx P missing
    by (simp add: SetBeginLocation.simps[of T this] SetBeginLocation.simps[of T P] l_def)
  have e: "SetEndLocation shw T this cur (offs, out)
      = Some (Inr (offs, out @ (if i = num_keys P then [logic_error] else [])))" for out
    using found same par idx P missing g
    by (simp add: SetEndLocation.simps[of shw T this] SetEndLocation.simps[of shw T P] l_def
          small_conversions[OF cur] small_conversions[OF half] cur_def[symmetric])
  have c1: "to_int (to_size_t (to_size_t 0 + (int (length s) + 1))) = cur"
    using small_conversions[OF cur] by (simp add: to_size_t_def cur_def)
  have em: "emplace [] (addr this) \<lparr>loc_begin = 0, loc_end = cur\<rparr> = offs"
    by (simp add: emplace_def offs_def l_def)
  have m: "measure_node shw T this
        \<lparr>nodes_to_be_printed = [EndOfLevel], offsets = [], current_offset = 0, stdout = []\<rparr>
      = Some (Inr \<lparr>nodes_to_be_printed = [EndOfLevel], offsets = offs, current_offset = cur,
                   stdout = (if i = 0 then [logic_error] else [])
                            @ (if i = num_keys P then [logic_error] else [])\<rparr>)"
    unfolding measure_node_def Let_def using lf g by (simp add: c1 em b e)
  have ml: "measure_loop shw T
        \<lparr>nodes_to_be_printed = [Item this, EndOfLevel], offsets = [], current_offset = 0, stdout = []\<rparr>
      = Some (Inr \<lparr>nodes_to_be_printed = [EndOfLevel], offsets = offs, current_offset = 0,
                   stdout = (if i = 0 then [logic_error] else [])
                            @ (if i = num_keys P then [logic_error] else [])\<rparr>)"
    using m isLeaf_present[OF lf] by (simp add: measure_loop.simps)
  have pl: "print_loop shw offs [Item this, EndOfLevel] [] = Inr (s @ '' '' @ [newline])"
    using lf g isLeaf_present[OF lf] by (simp add: print_loop.simps print_node_def)
  from ml pl show ?thesis by (simp add: getStringAll_def)
qed

text \<open>
  What follows a failed propagation runs as it would without it. \<open>half_node\<close> is the first
  child of the root of \<open>half_tree\<close> and has one key and one leaf, in slot 0. Rendering from
  \<open>half_node\<close> propagates the begin-offset of the leaf to \<open>half_node\<close> and on to the root,
  which has no entry: pass 1 writes \<^verbatim>\<open>logic error\<close> and runs to its end. The end-offset of
  \<open>half_node\<close> is never set, and pass 2 ends in its assertion.
\<close>

definition half_node :: "int node" where
  "half_node = Node 2 (Some 1) [5, 0, 0] 1 [Some (leaf 4 (Some 2) [1, 0, 0] 1), None, None, None]"

definition half_tree :: "int node" where
  "half_tree =
     Node 1 None [10, 0, 0] 1 [Some half_node, Some (leaf 3 (Some 1) [12, 0, 0] 1), None, None]"

lemma half_node_render:
  "measure_loop show_int half_tree
     \<lparr>nodes_to_be_printed = [Item half_node, EndOfLevel], offsets = [],
      current_offset = 0, stdout = []\<rparr>
   = Some (Inr \<lparr>nodes_to_be_printed = [EndOfLevel],
                offsets = [(2, \<lparr>loc_begin = 0, loc_end = 0\<rparr>), (4, \<lparr>loc_begin = 0, loc_end = 4\<rparr>)],
                current_offset = 0, stdout = [logic_error]\<rparr>)"
  "getStringAll show_int half_tree half_node = Some (Inl (AssertionFailure 2))"
  by code_simp+

text \<open>
  C5, as the code has it. A propagation that does not find the entry of a node writes the
  line \<^verbatim>\<open>logic error\<close> to \<^verbatim>\<open>std::cout\<close>, leaves the map as it is and returns to its
  caller without an error: the rendering is not aborted by it. So rendering from a leaf
  that is held in slot \<open>i\<close> of another node of the tree, to which its \<^verbatim>\<open>parent_\<close>
  points, where each propagation that reaches the parent fails, returns the line of the
  leaf and an empty line; \<^verbatim>\<open>std::cout\<close> holds one line \<^verbatim>\<open>logic error\<close> if \<open>i\<close> is 0
  and one if \<open>i\<close> is \<^verbatim>\<open>num_keys_\<close> of the parent.
\<close>

theorem propagation_failure:
  "(map_of (fst st) (addr node) = None \<longrightarrow>
      SetBeginLocation T node b st = Some (Inr (fst st, snd st @ [logic_error]))
      \<and> SetEndLocation shw T node e st = Some (Inr (fst st, snd st @ [logic_error])))
   \<and> (isLeaf this \<and> getString shw this = Inr s \<and> int (length s) + 1 < 2 ^ 31
        \<and> parent this = Some p \<and> p \<noteq> addr this \<and> deref T p = Some P
        \<and> getMyChildIdx T this = Inr i \<longrightarrow>
      getStringAll shw T this
        = Some (Inr (s @ '' '' @ [newline, newline],
                     (if i = 0 then [logic_error] else [])
                     @ (if i = num_keys P then [logic_error] else []))))"
proof (intro conjI impI)
  assume "map_of (fst st) (addr node) = None"
  then show "SetBeginLocation T node b st = Some (Inr (fst st, snd st @ [logic_error]))"
    by (simp add: SetBeginLocation.simps[of T node b st])
next
  assume "map_of (fst st) (addr node) = None"
  then show "SetEndLocation shw T node e st = Some (Inr (fst st, snd st @ [logic_error]))"
    by (simp add: SetEndLocation.simps[of shw T node e st])
next
  assume "isLeaf this \<and> getString shw this = Inr s \<and> int (length s) + 1 < 2 ^ 31
        \<and> parent this = Some p \<and> p \<noteq> addr this \<and> deref T p = Some P
        \<and> getMyChildIdx T this = Inr i"
  then have "isLeaf this" "getString shw this = Inr s" "int (length s) + 1 < 2 ^ 31"
    "parent this = Some p" "p \<noteq> addr this" "deref T p = Some P"
    "getMyChildIdx T this = Inr i"
    by blast+
  then show "getStringAll shw T this
        = Some (Inr (s @ '' '' @ [newline, newline],
                     (if i = 0 then [logic_error] else [])
                     @ (if i = num_keys P then [logic_error] else [])))"
    by (rule leaf_propagation)
qed

theorem propagation_failure_witness:
  "map_of (fst ([(2, \<lparr>loc_begin = 0, loc_end = 4\<rparr>)], [])) (addr good_tree) = None
   \<and> SetBeginLocation good_tree good_tree 0 ([(2, \<lparr>loc_begin = 0, loc_end = 4\<rparr>)], [])
       = Some (Inr ([(2, \<lparr>loc_begin = 0, loc_end = 4\<rparr>)], [logic_error]))
   \<and> SetEndLocation show_int good_tree good_tree 4 ([(2, \<lparr>loc_begin = 0, loc_end = 4\<rparr>)], [])
       = Some (Inr ([(2, \<lparr>loc_begin = 0, loc_end = 4\<rparr>)], [logic_error]))
   \<and> isLeaf first_leaf \<and> getString show_int first_leaf = Inr ''[5]''
   \<and> int (length ''[5]'') + 1 < 2 ^ 31
   \<and> parent first_leaf = Some 1 \<and> 1 \<noteq> addr first_leaf \<and> deref good_tree 1 = Some good_tree
   \<and> getMyChildIdx good_tree first_leaf = Inr 0
   \<and> getStringAll show_int good_tree first_leaf
       = Some (Inr (''[5]'' @ '' '' @ [newline, newline], [logic_error]))"
proof -
  have h1: "map_of (fst ([(2, \<lparr>loc_begin = 0, loc_end = 4\<rparr>)], [])) (addr good_tree) = None"
    by (simp add: good_tree_def)
  have h2: "isLeaf first_leaf \<and> getString show_int first_leaf = Inr ''[5]''
      \<and> int (length ''[5]'') + 1 < 2 ^ 31
      \<and> parent first_leaf = Some 1 \<and> 1 \<noteq> addr first_leaf \<and> deref good_tree 1 = Some good_tree
      \<and> getMyChildIdx good_tree first_leaf = Inr 0"
    by code_simp
  have k: "num_keys good_tree = 1" by (simp add: good_tree_def)
  from propagation_failure[where st = "([(2, \<lparr>loc_begin = 0, loc_end = 4\<rparr>)], [])"
      and node = good_tree and T = good_tree and b = 0 and shw = show_int and e = 4
      and this = first_leaf and s = "''[5]''" and p = 1 and P = good_tree and i = 0] h1 h2 k
  show ?thesis by simp
qed

text \<open>The offsets that pass 1 computes for \<open>lopsided_tree\<close>.\<close>

definition lopsided_offsets :: offsets where
  "lopsided_offsets =
     [(1, \<lparr>loc_begin = 0, loc_end = 20\<rparr>), (2, \<lparr>loc_begin = 0, loc_end = 8\<rparr>),
      (3, \<lparr>loc_begin = 8, loc_end = 0\<rparr>), (4, \<lparr>loc_begin = 13, loc_end = 23\<rparr>),
      (5, \<lparr>loc_begin = 0, loc_end = 4\<rparr>), (6, \<lparr>loc_begin = 4, loc_end = 8\<rparr>),
      (7, \<lparr>loc_begin = 8, loc_end = 13\<rparr>), (8, \<lparr>loc_begin = 13, loc_end = 18\<rparr>),
      (9, \<lparr>loc_begin = 18, loc_end = 23\<rparr>)]"

lemma lopsided_measure:
  "measure_loop show_int lopsided_tree
     \<lparr>nodes_to_be_printed = [Item lopsided_tree, EndOfLevel], offsets = [],
      current_offset = 0, stdout = []\<rparr>
   = Some (Inr \<lparr>nodes_to_be_printed = [EndOfLevel], offsets = lopsided_offsets,
                current_offset = 0, stdout = []\<rparr>)"
  by code_simp


lemma lop_labels:
  "getString show_int lopsided_tree = Inr ''[10, 20]''"
  "getString show_int lop_left = Inr ''[3]''"
  "getString show_int lop_mid = Inr ''[15]''"
  "getString show_int lop_right = Inr ''[25]''"
  "getString show_int (leaf 5 (Some 2) [1, 0, 0] 1) = Inr ''[1]''"
  "getString show_int (leaf 6 (Some 2) [4, 0, 0] 1) = Inr ''[4]''"
  "getString show_int (leaf 7 (Some 3) [12, 0, 0] 1) = Inr ''[12]''"
  "getString show_int (leaf 8 (Some 4) [22, 0, 0] 1) = Inr ''[22]''"
  "getString show_int (leaf 9 (Some 4) [27, 0, 0] 1) = Inr ''[27]''"
  by code_simp+

lemma lop_shape:
  "\<not> isLeaf lopsided_tree" "\<not> isLeaf lop_left" "\<not> isLeaf lop_mid" "\<not> isLeaf lop_right"
  "isLeaf (leaf a p ks k)"
  "present (children lopsided_tree) = [lop_left, lop_mid, lop_right]"
  "present (children lop_left) = [leaf 5 (Some 2) [1, 0, 0] 1, leaf 6 (Some 2) [4, 0, 0] 1]"
  "present (children lop_mid) = [leaf 7 (Some 3) [12, 0, 0] 1]"
  "present (children lop_right) = [leaf 8 (Some 4) [22, 0, 0] 1, leaf 9 (Some 4) [27, 0, 0] 1]"
  "present (children (leaf a p ks k)) = []"
  "addr lopsided_tree = 1" "addr lop_left = 2" "addr lop_mid = 3" "addr lop_right = 4"
  by (simp_all add: isLeaf_def lopsided_tree_def lop_left_def lop_mid_def lop_right_def leaf_def)

text \<open>
  The assertion of the render pass fails exactly when the span, read as an
  \<^verbatim>\<open>unsigned int\<close>, does not exceed the length of the label and its separator.
\<close>

lemma print_node_assertion:
  assumes "\<not> isLeaf n" and "getString shw n = Inr s" and "map_of offs (addr n) = Some l"
  shows "print_node shw offs n = Inl (AssertionFailure (addr n))
         \<longleftrightarrow> to_unsigned (loc_end l - loc_begin l) \<le> int (length s) + 1"
  using assms by (auto simp: print_node_def Let_def)

text \<open>
  C10. The claim is that the rendering aborts whenever pass 1 leaves an internal node with
  a span that does not exceed the width of its label and separator. Pass 1 leaves
  \<open>lop_mid\<close> with the begin-offset 8 and the end-offset 0, a span of \<open>-8\<close> for a label of
  4 characters. The span is stored in an \<^verbatim>\<open>unsigned int\<close> before the \<^verbatim>\<open>assert\<close>, where
  it is \<open>4294967288\<close>: the assertion holds and the node is written in fields of
  \<open>2147483646\<close> and \<open>2147483642\<close> characters.
\<close>

theorem render_negative_span:
  "measure_loop show_int lopsided_tree
     \<lparr>nodes_to_be_printed = [Item lopsided_tree, EndOfLevel], offsets = [],
      current_offset = 0, stdout = []\<rparr>
   = Some (Inr \<lparr>nodes_to_be_printed = [EndOfLevel], offsets = lopsided_offsets,
                current_offset = 0, stdout = []\<rparr>)
   \<and> map_of lopsided_offsets (addr lop_mid) = Some \<lparr>loc_begin = 8, loc_end = 0\<rparr>
   \<and> getStringAll show_int lopsided_tree lopsided_tree
       = Some (Inr (setw_right 14 ''[10, 20] '' @ setw_right 6 '' '' @ [newline]
                    @ setw_right 6 ''[3] '' @ setw_right 2 '' ''
                    @ setw_right 2147483646 ''[15] '' @ setw_right 2147483642 '' ''
                    @ setw_right 7 ''[25] '' @ setw_right 3 '' '' @ [newline]
                    @ ''[1] [4] [12] [22] [27] '' @ [newline] @ [newline], []))"
proof -
  have "print_loop show_int lopsided_offsets [Item lopsided_tree, EndOfLevel] []
      = Inr (setw_right 14 ''[10, 20] '' @ setw_right 6 '' '' @ [newline]
             @ setw_right 6 ''[3] '' @ setw_right 2 '' ''
             @ setw_right 2147483646 ''[15] '' @ setw_right 2147483642 '' ''
             @ setw_right 7 ''[25] '' @ setw_right 3 '' '' @ [newline]
             @ ''[1] [4] [12] [22] [27] '' @ [newline])"
    by (simp add: print_loop.simps print_node_def lop_labels lop_shape lopsided_offsets_def
          to_unsigned_def to_int_def to_size_t_def setw_right_def)
  moreover have "map_of lopsided_offsets (addr lop_mid) = Some \<lparr>loc_begin = 8, loc_end = 0\<rparr>"
    by (simp add: lopsided_offsets_def lop_shape)
  ultimately show ?thesis
    by (simp add: getStringAll_def lopsided_measure)
qed

subsection \<open>The text of the render pass\<close>

lemma children_sum_less:
  "ns \<noteq> [] \<Longrightarrow>
     sum_list (map size (concat (map (\<lambda>n. present (children n)) ns))) < sum_list (map size ns)"
proof (induction ns)
  case Nil
  then show ?case by simp
next
  case (Cons n ns)
  show ?case
  proof (cases "ns = []")
    case True
    with children_size[of n] show ?thesis by simp
  next
    case False
    with Cons.IH children_size[of n] show ?thesis by simp
  qed
qed

text \<open>The nodes level by level: a level, then the level of the children of its nodes.\<close>

function levels :: "'k node list \<Rightarrow> 'k node list list" where
  "levels ns = (if ns = [] then [] else ns # levels (concat (map (\<lambda>n. present (children n)) ns)))"
  by pat_completeness auto
termination
  by (relation "measure (\<lambda>ns. sum_list (map size ns))") (auto dest: children_sum_less)

declare levels.simps [simp del]

text \<open>The label of a node and the span that the map records for it.\<close>

definition label_of :: "('k \<Rightarrow> string) \<Rightarrow> 'k node \<Rightarrow> string" where
  "label_of shw n = (case getString shw n of Inl _ \<Rightarrow> [] | Inr s \<Rightarrow> s)"

definition span_of :: "offsets \<Rightarrow> 'k node \<Rightarrow> int" where
  "span_of offs n = (case map_of offs (addr n) of None \<Rightarrow> 0 | Some l \<Rightarrow> loc_end l - loc_begin l)"

text \<open>
  The text of one node: a leaf is its label and a separator; an internal node is its label
  and a separator right-aligned in a field of \<open>span / 2 + (label + 1) / 2\<close> characters,
  then a space right-aligned in a field of \<open>span / 2 - (label + 1) / 2\<close> characters,
  where \<open>label\<close> is the length of the label.
\<close>

definition node_text :: "('k \<Rightarrow> string) \<Rightarrow> offsets \<Rightarrow> 'k node \<Rightarrow> string" where
  "node_text shw offs n =
     (if isLeaf n then label_of shw n @ '' ''
      else setw_right (span_of offs n div 2 + (int (length (label_of shw n)) + 1) div 2)
                      (label_of shw n @ '' '')
           @ setw_right (span_of offs n div 2 - (int (length (label_of shw n)) + 1) div 2) '' '')"

text \<open>
  The text of one node in the words of the claim, with the widths \<open>span / 2 + label / 2\<close>
  and \<open>span / 2 - label / 2\<close>.
\<close>

definition claimed_node_text :: "('k \<Rightarrow> string) \<Rightarrow> offsets \<Rightarrow> 'k node \<Rightarrow> string" where
  "claimed_node_text shw offs n =
     (if isLeaf n then label_of shw n @ '' ''
      else setw_right (span_of offs n div 2 + int (length (label_of shw n)) div 2)
                      (label_of shw n @ '' '')
           @ setw_right (span_of offs n div 2 - int (length (label_of shw n)) div 2) '' '')"

text \<open>The spans of the internal nodes are not negative and fit an \<^verbatim>\<open>int\<close>.\<close>

definition spans_fit :: "offsets \<Rightarrow> 'k node \<Rightarrow> bool" where
  "spans_fit offs this =
     (\<forall>n \<in> set (concat (levels [this])).
        \<not> isLeaf n \<longrightarrow> 0 \<le> span_of offs n \<and> span_of offs n < 2 ^ 31)"

text \<open>One line for each level, the texts of its nodes from left to right.\<close>

definition rendered_levels :: "('k \<Rightarrow> string) \<Rightarrow> offsets \<Rightarrow> 'k node list \<Rightarrow> string" where
  "rendered_levels shw offs ns =
     concat (map (\<lambda>lvl. concat (map (node_text shw offs) lvl) @ [newline]) (levels ns))"

lemma print_node_text:
  assumes "print_node shw offs n = Inr s"
    and "\<not> isLeaf n \<longrightarrow> 0 \<le> span_of offs n \<and> span_of offs n < 2 ^ 31"
  shows "s = node_text shw offs n"
proof (cases "isLeaf n")
  case True
  with assms(1) show ?thesis
    by (auto simp: print_node_def node_text_def label_of_def split: sum.splits)
next
  case False
  with assms(1) obtain lbl l where
    lbl: "getString shw n = Inr lbl" and l: "map_of offs (addr n) = Some l"
    by (auto simp: print_node_def Let_def split: sum.splits option.splits)
  define span where "span = loc_end l - loc_begin l"
  define w where "w = int (length lbl) + 1"
  from False assms(2) l have fit: "0 \<le> span" "span < 2 ^ 31"
    by (simp_all add: span_of_def span_def)
  then have u: "to_unsigned span = span"
    by (simp add: to_unsigned_def)
  have wl: "int (length (lbl @ '' '')) = w" by (simp add: w_def)
  have pn: "print_node shw offs n =
      (if w < span
       then Inr (setw_right (to_int (to_size_t (span div 2 + w div 2))) (lbl @ '' '')
                 @ setw_right (to_int (to_size_t (span div 2 - w div 2))) '' '')
       else Inl (AssertionFailure (addr n)))"
    using False lbl l u by (simp add: print_node_def Let_def span_def w_def add.commute)
  from assms(1) pn have gt: "w < span"
    by (auto split: if_splits)
  have w0: "0 < w" by (simp add: w_def)
  from gt w0 fit have a: "0 \<le> span div 2 + w div 2" "span div 2 + w div 2 < 2 ^ 31"
    and b: "0 \<le> span div 2 - w div 2" "span div 2 - w div 2 < 2 ^ 31"
    by auto
  from a have ca: "to_int (to_size_t (span div 2 + w div 2)) = span div 2 + w div 2"
    by (simp add: to_int_def to_size_t_def)
  from b have cb: "to_int (to_size_t (span div 2 - w div 2)) = span div 2 - w div 2"
    by (simp add: to_int_def to_size_t_def)
  from assms(1) pn gt ca cb
  have "s = setw_right (span div 2 + w div 2) (lbl @ '' '') @ setw_right (span div 2 - w div 2) '' ''"
    by simp
  with False lbl l show ?thesis
    by (simp add: node_text_def label_of_def span_of_def span_def w_def)
qed


lemma print_loop_items:
  assumes "\<forall>n \<in> set xs. print_node shw offs n = Inr (f n)"
  shows "print_loop shw offs (map Item xs @ EndOfLevel # map Item ys) ss
       = print_loop shw offs
           (EndOfLevel # map Item (ys @ concat (map (\<lambda>n. present (children n)) xs)))
           (ss @ concat (map f xs))"
  using assms
proof (induction xs arbitrary: ys ss)
  case Nil
  then show ?case by simp
next
  case (Cons x xs)
  from Cons.prems have x: "print_node shw offs x = Inr (f x)"
    and xs: "\<forall>n \<in> set xs. print_node shw offs n = Inr (f n)" by simp_all
  have "print_loop shw offs (map Item (x # xs) @ EndOfLevel # map Item ys) ss
      = print_loop shw offs
          (map Item xs @ EndOfLevel # map Item (ys @ present (children x))) (ss @ f x)"
    by (subst print_loop.simps) (simp add: x)
  also have "\<dots> = print_loop shw offs
          (EndOfLevel # map Item ((ys @ present (children x))
                                  @ concat (map (\<lambda>n. present (children n)) xs)))
          ((ss @ f x) @ concat (map f xs))"
    by (rule Cons.IH[OF xs])
  finally show ?case by simp
qed

lemma print_loop_items_Inr:
  "print_loop shw offs (map Item xs @ EndOfLevel # map Item ys) ss = Inr out \<Longrightarrow>
     n \<in> set xs \<Longrightarrow> \<exists>s. print_node shw offs n = Inr s"
proof (induction xs arbitrary: ys ss)
  case Nil
  then show ?case by simp
next
  case (Cons x xs)
  from Cons.prems(1) obtain s where x: "print_node shw offs x = Inr s"
    and r: "print_loop shw offs (map Item xs @ EndOfLevel # map Item (ys @ present (children x)))
              (ss @ s) = Inr out"
    by (subst (asm) print_loop.simps) (auto split: sum.splits)
  from Cons.prems(2) consider "n = x" | "n \<in> set xs" by auto
  then show ?case
  proof cases
    case 1
    with x show ?thesis by blast
  next
    case 2
    from Cons.IH[OF r 2] show ?thesis .
  qed
qed

lemma print_loop_level_end:
  "print_loop shw offs (EndOfLevel # map Item zs) ss
     = (if zs = [] then Inr (ss @ [newline])
        else print_loop shw offs (map Item zs @ [EndOfLevel]) (ss @ [newline]))"
  by (subst print_loop.simps) (cases zs; simp)

lemma print_loop_last: "print_loop shw offs [EndOfLevel] ss = Inr (ss @ [newline])"
  using print_loop_level_end[of shw offs "[]" ss] by simp

lemma print_loop_levels:
  "zs \<noteq> [] \<Longrightarrow> print_loop shw offs (map Item zs @ [EndOfLevel]) ss = Inr out \<Longrightarrow>
     \<forall>n \<in> set (concat (levels zs)).
        \<not> isLeaf n \<longrightarrow> 0 \<le> span_of offs n \<and> span_of offs n < 2 ^ 31 \<Longrightarrow>
     out = ss @ rendered_levels shw offs zs"
proof (induction zs arbitrary: ss rule: levels.induct)
  case (1 ns)
  define kids where "kids = concat (map (\<lambda>n. present (children n)) ns)"
  define line where "line = concat (map (node_text shw offs) ns)"
  from "1.prems"(1) have lv: "levels ns = ns # levels kids"
    unfolding kids_def by (subst levels.simps) simp
  have ntxt: "print_node shw offs n = Inr (node_text shw offs n)" if "n \<in> set ns" for n
  proof -
    from "1.prems"(2) that obtain s where s: "print_node shw offs n = Inr s"
      using print_loop_items_Inr[of shw offs ns "[]" ss out n] by auto
    from "1.prems"(3) that lv
    have "\<not> isLeaf n \<longrightarrow> 0 \<le> span_of offs n \<and> span_of offs n < 2 ^ 31" by simp
    from print_node_text[OF s this] s show ?thesis by simp
  qed
  then have "print_loop shw offs (map Item ns @ EndOfLevel # map Item []) ss
      = print_loop shw offs (EndOfLevel # map Item ([] @ kids)) (ss @ line)"
    unfolding kids_def line_def by (intro print_loop_items) simp
  with "1.prems"(2)
  have step: "print_loop shw offs (EndOfLevel # map Item kids) (ss @ line) = Inr out"
    by simp
  have rl: "rendered_levels shw offs ns = line @ [newline] @ rendered_levels shw offs kids"
    by (simp add: rendered_levels_def lv line_def)
  show ?case
  proof (cases "kids = []")
    case True
    with step have "out = (ss @ line) @ [newline]"
      by (simp add: print_loop_last)
    moreover from True have "rendered_levels shw offs kids = []"
      by (simp add: rendered_levels_def levels.simps)
    ultimately show ?thesis by (simp add: rl)
  next
    case False
    with step have "print_loop shw offs (map Item kids @ [EndOfLevel]) ((ss @ line) @ [newline])
        = Inr out"
      by (simp add: print_loop_level_end)
    moreover from "1.prems"(3) lv
    have "\<forall>n \<in> set (concat (levels kids)).
            \<not> isLeaf n \<longrightarrow> 0 \<le> span_of offs n \<and> span_of offs n < 2 ^ 31"
      by simp
    ultimately have "out = ((ss @ line) @ [newline]) @ rendered_levels shw offs kids"
      using "1.prems"(1) False unfolding kids_def by (intro "1.IH") auto
    then show ?thesis by (simp add: rl)
  qed
qed


text \<open>
  A tree with the root \<^verbatim>\<open>[5]\<close>, whose label has an odd length, and the leaves
  \<^verbatim>\<open>[1]\<close> and \<^verbatim>\<open>[12]\<close>; the offsets that pass 1 computes for it; the variables of
  pass 1 at its start.
\<close>

definition five_root :: "int node" where
  "five_root =
     Node 1 None [5, 0, 0] 1
       [Some (leaf 2 (Some 1) [1, 0, 0] 1), Some (leaf 3 (Some 1) [12, 0, 0] 1), None, None]"

definition five_offsets :: offsets where
  "five_offsets =
     [(1, \<lparr>loc_begin = 0, loc_end = 9\<rparr>), (2, \<lparr>loc_begin = 0, loc_end = 4\<rparr>),
      (3, \<lparr>loc_begin = 4, loc_end = 9\<rparr>)]"

definition initial_state :: "'k node \<Rightarrow> 'k lstate" where
  "initial_state this =
     \<lparr>nodes_to_be_printed = [Item this, EndOfLevel], offsets = [], current_offset = 0, stdout = []\<rparr>"

text \<open>
  C7. The claim gives the widths of an internal node as \<open>span / 2 + label / 2\<close> and
  \<open>span / 2 - label / 2\<close>. The code takes the length of the label with its separator,
  \<^verbatim>\<open>strlen = (getString() + ' ').length()\<close>: for the root \<^verbatim>\<open>[5]\<close> with the span 9
  the widths are 6 and 2, not 5 and 3, and the label stands one column further right.
\<close>

theorem render_pass_text_counterexample:
  "measure_loop show_int five_root (initial_state five_root)
     = Some (Inr \<lparr>nodes_to_be_printed = [EndOfLevel], offsets = five_offsets,
                  current_offset = 0, stdout = []\<rparr>)
   \<and> print_node show_int five_offsets five_root = Inr ''  [5]   ''
   \<and> claimed_node_text show_int five_offsets five_root = '' [5]    ''"
  by code_simp

text \<open>
  C7, as the code has it: when the rendering returns and the spans that pass 1 recorded
  for the internal nodes lie in \<open>[0, 2 ^ 31)\<close>, its text is one line for each level, made
  of the texts \<open>node_text\<close> of the nodes of the level, and a last empty line.
\<close>

theorem render_pass_text:
  assumes "measure_loop shw T (initial_state this) = Some (Inr st)"
    and "getStringAll shw T this = Some (Inr (out, log))"
    and "spans_fit (offsets st) this"
  shows "out = rendered_levels shw (offsets st) [this] @ [newline]"
proof -
  from assms(1,2) obtain ss where
    p: "print_loop shw (offsets st) [Item this, EndOfLevel] [] = Inr ss" and o: "out = ss @ [newline]"
    by (auto simp: getStringAll_def initial_state_def split: sum.splits)
  from p have "print_loop shw (offsets st) (map Item [this] @ [EndOfLevel]) [] = Inr ss"
    by simp
  from print_loop_levels[OF _ this] assms(3)
  have "ss = [] @ rendered_levels shw (offsets st) [this]"
    by (simp add: spans_fit_def)
  with o show ?thesis by simp
qed

theorem render_pass_text_witness:
  "measure_loop show_int five_root (initial_state five_root)
     = Some (Inr \<lparr>nodes_to_be_printed = [EndOfLevel], offsets = five_offsets,
                  current_offset = 0, stdout = []\<rparr>)
   \<and> getStringAll show_int five_root five_root
       = Some (Inr (''  [5]   '' @ [newline] @ ''[1] [12] '' @ [newline] @ [newline], []))
   \<and> spans_fit five_offsets five_root
   \<and> ''  [5]   '' @ [newline] @ ''[1] [12] '' @ [newline] @ [newline]
       = rendered_levels show_int five_offsets [five_root] @ [newline]"
proof -
  have h1: "measure_loop show_int five_root (initial_state five_root)
     = Some (Inr \<lparr>nodes_to_be_printed = [EndOfLevel], offsets = five_offsets,
                  current_offset = 0, stdout = []\<rparr>)"
    by code_simp
  have h2: "getStringAll show_int five_root five_root
       = Some (Inr (''  [5]   '' @ [newline] @ ''[1] [12] '' @ [newline] @ [newline], []))"
    by code_simp
  have h3: "spans_fit five_offsets five_root"
    by code_simp
  from render_pass_text[OF h1 h2] h1 h2 h3 show ?thesis by simp
qed

end
